theory Spec2Isabelle
  imports Main "HOL-Library.Word" "HOL-Library.AList"
begin

unbundle bit_operations_syntax

section \<open>The rule engine of \<^verbatim>\<open>src/tictactoe.ts\<close> (bitboard variant)\<close>

text \<open>
  The embedding follows the bitboard variant of the rule engine, the one the search
  engine of \<^verbatim>\<open>src/mcts.ts\<close> is written against. Every bitboard of the source only
  ever flows through JavaScript's bitwise operators, which work on 32-bit integers, so a
  bitboard is a \<open>32 word\<close>. Coordinates are natural numbers: \<^verbatim>\<open>Math.floor(c / 3)\<close> is
  \<open>c div 3\<close> and \<^verbatim>\<open>c % 3\<close> is \<open>c mod 3\<close> there.
\<close>

subsection \<open>Data model\<close>

datatype Player = PlayerX | PlayerO

type_synonym Tile = "Player option"

datatype GameOutcome = Owner Player | OutcomeNone | OutcomeDraw

type_synonym Coordinate = "nat \<times> nat"

type_synonym bitboard = "32 word"

datatype ActiveSubgrid = Any | Subgrid Coordinate

record Move =
  coordinate :: Coordinate
  player :: Player
  currentSubgrid :: Coordinate

record GameState =
  aSubgridBitboard :: "bitboard list"
  bSubgridBitboard :: "bitboard list"
  activeSubgrid :: ActiveSubgrid
  playerToMove :: Player
  complete :: bool
  moves :: "Move list"

definition initialGameState :: GameState where
  "initialGameState =
     \<lparr> aSubgridBitboard = [0, 0, 0, 0, 0, 0, 0, 0, 0],
       bSubgridBitboard = [0, 0, 0, 0, 0, 0, 0, 0, 0],
       activeSubgrid = Any,
       playerToMove = PlayerX,
       complete = False,
       moves = [] \<rparr>"

text \<open>
  The errors of the two modules. The source throws plain \<^verbatim>\<open>Error\<close> objects that differ by
  their message; each message is a constructor, named after the error of the
  specification it stands for where there is one.
\<close>

datatype error =
    OccupiedCell Player        \<comment> \<open>\<^verbatim>\<open>Tile already taken by ...\<close>\<close>
  | WrongSubgrid               \<comment> \<open>\<^verbatim>\<open>Move is not in the active subgrid\<close>\<close>
  | ChildNotFound              \<comment> \<open>\<^verbatim>\<open>Child not found\<close>\<close>
  | ChildNotExpanded           \<comment> \<open>\<^verbatim>\<open>Child not expanded\<close>\<close>
  | NoBestPlay                 \<comment> \<open>\<^verbatim>\<open>No best play found. ...\<close>\<close>
  | UCB1Root                   \<comment> \<open>\<^verbatim>\<open>UCB1 not defined for root node\<close>\<close>
  | TypeError                  \<comment> \<open>the runtime's own error on a property read of \<^verbatim>\<open>undefined\<close>\<close>

subsection \<open>Small helpers\<close>

fun otherPlayer :: "Player \<Rightarrow> Player" where
  "otherPlayer PlayerX = PlayerO"
| "otherPlayer PlayerO = PlayerX"

definition coordinatesEqual :: "Coordinate \<Rightarrow> Coordinate \<Rightarrow> bool" where
  "coordinatesEqual a b \<longleftrightarrow> fst a = fst b \<and> snd a = snd b"

fun isPlayer :: "GameOutcome \<Rightarrow> bool" where
  "isPlayer (Owner p) = True"
| "isPlayer OutcomeNone = False"
| "isPlayer OutcomeDraw = False"

text \<open>
  A read of a JavaScript array past its end gives \<^verbatim>\<open>undefined\<close>, which every bitwise
  operator takes as 0; a write past its end extends the array, and the holes in between
  read as \<^verbatim>\<open>undefined\<close> again.
\<close>

definition readBitboard :: "bitboard list \<Rightarrow> nat \<Rightarrow> bitboard" where
  "readBitboard bs idx = (if idx < length bs then bs ! idx else 0)"

definition writeBitboard :: "bitboard list \<Rightarrow> nat \<Rightarrow> bitboard \<Rightarrow> bitboard list" where
  "writeBitboard bs idx v =
     (if idx < length bs then bs[idx := v]
      else bs @ replicate (idx - length bs) 0 @ [v])"

subsection \<open>Bit operations\<close>

text \<open>The shift count of \<^verbatim>\<open><<\<close> and \<^verbatim>\<open>>>\<close> is taken modulo 32.\<close>

definition setBit :: "bitboard \<Rightarrow> nat \<Rightarrow> nat \<Rightarrow> bitboard" where
  "setBit b x y = (let index = x + y * 3 in b OR push_bit (index mod 32) 1)"

definition unsetBit :: "bitboard \<Rightarrow> nat \<Rightarrow> nat \<Rightarrow> bitboard" where
  "unsetBit b x y = (let index = x + y * 3 in b AND NOT (push_bit (index mod 32) 1))"

definition getBit :: "bitboard \<Rightarrow> nat \<Rightarrow> nat \<Rightarrow> bitboard" where
  "getBit b x y = (let index = x + y * 3 in signed_drop_bit (index mod 32) b AND 1)"

definition isBitboardWinning :: "bitboard \<Rightarrow> bool" where
  "isBitboardWinning b \<longleftrightarrow>
     b AND 448 = 448 \<or>
     b AND 56 = 56 \<or>
     b AND 7 = 7 \<or>
     b AND 292 = 292 \<or>
     b AND 146 = 146 \<or>
     b AND 73 = 73 \<or>
     b AND 273 = 273 \<or>
     b AND 84 = 84"

definition bitboardGridResult :: "bitboard \<Rightarrow> bitboard \<Rightarrow> GameOutcome" where
  "bitboardGridResult xBitboard yBitboard =
     (let xWin = isBitboardWinning xBitboard;
          yWin = isBitboardWinning yBitboard
      in if xWin then Owner PlayerX
         else if yWin then Owner PlayerO
         else if xBitboard OR yBitboard = 511 then OutcomeDraw
         else OutcomeNone)"

subsection \<open>The class \<^verbatim>\<open>Game\<close>\<close>

definition checkWinSubgrid :: "GameState \<Rightarrow> Coordinate \<Rightarrow> GameOutcome" where
  "checkWinSubgrid s subgrid =
     (let idx = fst subgrid + snd subgrid * 3;
          xBitboard = readBitboard (aSubgridBitboard s) idx;
          yBitboard = readBitboard (bSubgridBitboard s) idx
      in bitboardGridResult xBitboard yBitboard)"

text \<open>The nested loops \<^verbatim>\<open>for x in 0..2, for y in 0..2\<close>, in the order they run.\<close>

definition grid3 :: "Coordinate list" where
  "grid3 = [(0, 0), (0, 1), (0, 2), (1, 0), (1, 1), (1, 2), (2, 0), (2, 1), (2, 2)]"

text \<open>One round of the loop of \<^verbatim>\<open>checkWinWholeBoard\<close> on its three accumulators.\<close>

fun wholeBoardStep ::
  "GameState \<Rightarrow> bitboard \<times> bitboard \<times> bitboard \<Rightarrow> Coordinate \<Rightarrow> bitboard \<times> bitboard \<times> bitboard"
where
  "wholeBoardStep s (xWinsBitboard, yWinsBitboard, neutralBitboard) (x, y) =
     (let subgridResult = checkWinSubgrid s (x, y)
      in if subgridResult = Owner PlayerX then (setBit xWinsBitboard x y, yWinsBitboard, neutralBitboard)
         else if subgridResult = Owner PlayerO then (xWinsBitboard, setBit yWinsBitboard x y, neutralBitboard)
         else if subgridResult = OutcomeDraw then (xWinsBitboard, yWinsBitboard, setBit neutralBitboard x y)
         else (xWinsBitboard, yWinsBitboard, neutralBitboard))"

definition checkWinWholeBoard :: "GameState \<Rightarrow> GameOutcome" where
  "checkWinWholeBoard s =
     (case foldl (wholeBoardStep s) (0, 0, 0) grid3 of
        (xWinsBitboard, yWinsBitboard, neutralBitboard) \<Rightarrow>
          (let playerResult = bitboardGridResult xWinsBitboard yWinsBitboard
           in if isPlayer playerResult then playerResult
              else if playerResult = OutcomeDraw \<or>
                      xWinsBitboard OR yWinsBitboard OR neutralBitboard = 511
                   then OutcomeDraw
                   else OutcomeNone))"

definition getTile :: "GameState \<Rightarrow> Coordinate \<Rightarrow> Tile" where
  "getTile s c =
     (let subgridX = fst c div 3;
          subgridY = snd c div 3;
          idx = subgridX + subgridY * 3;
          xBitboard = readBitboard (aSubgridBitboard s) idx;
          yBitboard = readBitboard (bSubgridBitboard s) idx;
          x = fst c mod 3;
          y = snd c mod 3
      in if getBit xBitboard x y \<noteq> 0 then Some PlayerX
         else if getBit yBitboard x y \<noteq> 0 then Some PlayerO
         else None)"

text \<open>
  \<^verbatim>\<open>doMove\<close> mutates the game in place and may throw. The model returns the outcome of
  the call (the error thrown, if any), the state the game is left in, and the list of
  calls made to the \<^verbatim>\<open>onMove\<close> hook, which does nothing in the class itself.
\<close>

record DoMoveResult =
  thrown :: "error option"
  after :: GameState
  hookCalls :: "Move list"

definition doMove :: "GameState \<Rightarrow> Move \<Rightarrow> DoMoveResult" where
  "doMove s move =
     (let subgridX = fst (coordinate move) div 3;
          subgridY = snd (coordinate move) div 3;
          offsetX = fst (coordinate move) mod 3;
          offsetY = snd (coordinate move) mod 3;
          idx = subgridX + subgridY * 3;
          xBitboard = readBitboard (aSubgridBitboard s) idx;
          yBitboard = readBitboard (bSubgridBitboard s) idx
      in case getTile s (coordinate move) of
           Some tile \<Rightarrow> \<lparr> thrown = Some (OccupiedCell tile), after = s, hookCalls = [] \<rparr>
         | None \<Rightarrow>
             if activeSubgrid s \<noteq> Any \<and>
                \<not> (case activeSubgrid s of
                       Subgrid a \<Rightarrow> coordinatesEqual a (subgridX, subgridY) | Any \<Rightarrow> True)
             then \<lparr> thrown = Some WrongSubgrid, after = s, hookCalls = [] \<rparr>
             else
               let s1 = s\<lparr> moves := moves s @ [move] \<rparr>;
                   s2 = (if player move = PlayerX
                         then s1\<lparr> aSubgridBitboard :=
                                   writeBitboard (aSubgridBitboard s1) idx (setBit xBitboard offsetX offsetY) \<rparr>
                         else s1\<lparr> bSubgridBitboard :=
                                   writeBitboard (bSubgridBitboard s1) idx (setBit yBitboard offsetX offsetY) \<rparr>);
                   s3 = s2\<lparr> activeSubgrid := Subgrid (offsetX, offsetY) \<rparr>;
                   subgridOutcome = checkWinSubgrid s3 (offsetX, offsetY);
                   s4 = (if subgridOutcome \<noteq> OutcomeNone then s3\<lparr> activeSubgrid := Any \<rparr> else s3);
                   s5 = s4\<lparr> playerToMove := otherPlayer (player move) \<rparr>;
                   s6 = s5\<lparr> complete := (checkWinWholeBoard s5 \<noteq> OutcomeNone) \<rparr>
               in \<lparr> thrown = None, after = s6, hookCalls = [move] \<rparr>)"

text \<open>
  \<^verbatim>\<open>undoMove\<close> has no \<^verbatim>\<open>throw\<close>, and \<^verbatim>\<open>pop\<close> on an empty array returns \<^verbatim>\<open>undefined\<close>
  without raising: the result is always the right injection.
\<close>

definition undoMove :: "GameState \<Rightarrow> Move \<Rightarrow> error + GameState" where
  "undoMove s move =
     (let s1 = s\<lparr> moves := butlast (moves s) \<rparr>;
          subgridX = fst (coordinate move) div 3;
          subgridY = snd (coordinate move) div 3;
          offsetX = fst (coordinate move) mod 3;
          offsetY = snd (coordinate move) mod 3;
          idx = subgridX + subgridY * 3;
          xBitboard = readBitboard (aSubgridBitboard s1) idx;
          yBitboard = readBitboard (bSubgridBitboard s1) idx;
          s2 = (if player move = PlayerX
                then s1\<lparr> aSubgridBitboard :=
                          writeBitboard (aSubgridBitboard s1) idx (unsetBit xBitboard offsetX offsetY) \<rparr>
                else s1\<lparr> bSubgridBitboard :=
                          writeBitboard (bSubgridBitboard s1) idx (unsetBit yBitboard offsetX offsetY) \<rparr>);
          s3 = s2\<lparr> activeSubgrid := Subgrid (currentSubgrid move) \<rparr>;
          s4 = s3\<lparr> playerToMove := player move \<rparr>;
          s5 = s4\<lparr> complete := False \<rparr>
      in Inr s5)"

definition offsets3 :: "Coordinate list" where
  "offsets3 = [(0, 0), (0, 1), (0, 2), (1, 0), (1, 1), (1, 2), (2, 0), (2, 1), (2, 2)]"

definition legalMovesSubgrid :: "GameState \<Rightarrow> Coordinate \<Rightarrow> Move list" where
  "legalMovesSubgrid s subgrid =
     (let idx = fst subgrid + snd subgrid * 3;
          xBitboard = readBitboard (aSubgridBitboard s) idx;
          yBitboard = readBitboard (bSubgridBitboard s) idx
      in map (\<lambda>(offsetX, offsetY).
                \<lparr> coordinate = (fst subgrid * 3 + offsetX, snd subgrid * 3 + offsetY),
                  player = playerToMove s,
                  currentSubgrid = subgrid \<rparr>)
           (filter (\<lambda>(offsetX, offsetY).
                      \<not> (getBit xBitboard offsetX offsetY \<noteq> 0 \<or> getBit yBitboard offsetX offsetY \<noteq> 0))
              offsets3))"

definition legalMoves :: "GameState \<Rightarrow> Move list" where
  "legalMoves s =
     (if complete s then []
      else concat
             (map (\<lambda>(x, y).
                     if checkWinSubgrid s (x, y) \<noteq> OutcomeNone then []
                     else if activeSubgrid s = Any \<or>
                             (case activeSubgrid s of
                                Subgrid a \<Rightarrow> coordinatesEqual a (x, y) | Any \<Rightarrow> False)
                          then legalMovesSubgrid s (x, y)
                          else [])
                grid3))"


subsection \<open>Notions of the specification\<close>

text \<open>Exchanging the player labels of an outcome, for the symmetry law.\<close>

fun swapLabels :: "GameOutcome \<Rightarrow> GameOutcome" where
  "swapLabels (Owner p) = Owner (otherPlayer p)"
| "swapLabels OutcomeNone = OutcomeNone"
| "swapLabels OutcomeDraw = OutcomeDraw"

text \<open>
  The meta-board of the specification: the eight winning triples as subgrid coordinates
  (three rows, three columns, two diagonals), ownership of one of them by a player, and
  the board outcome the specification describes, the first player tested first as in
  the subgrid test.
\<close>

definition winningTriples :: "Coordinate list list" where
  "winningTriples =
     [[(0, 0), (1, 0), (2, 0)], [(0, 1), (1, 1), (2, 1)], [(0, 2), (1, 2), (2, 2)],
      [(0, 0), (0, 1), (0, 2)], [(1, 0), (1, 1), (1, 2)], [(2, 0), (2, 1), (2, 2)],
      [(0, 0), (1, 1), (2, 2)], [(2, 0), (1, 1), (0, 2)]]"

definition ownsMetaTriple :: "GameState \<Rightarrow> Player \<Rightarrow> bool" where
  "ownsMetaTriple s p \<longleftrightarrow>
     (\<exists>t \<in> set winningTriples. \<forall>c \<in> set t. checkWinSubgrid s c = Owner p)"

definition allSubgridsDecided :: "GameState \<Rightarrow> bool" where
  "allSubgridsDecided s \<longleftrightarrow> (\<forall>c \<in> set grid3. checkWinSubgrid s c \<noteq> OutcomeNone)"

definition boardOutcomeSpec :: "GameState \<Rightarrow> GameOutcome" where
  "boardOutcomeSpec s =
     (if ownsMetaTriple s PlayerX then Owner PlayerX
      else if ownsMetaTriple s PlayerO then Owner PlayerO
      else if allSubgridsDecided s then OutcomeDraw
      else OutcomeNone)"

text \<open>
  A board on which the first player owns the three subgrids of the row \<open>y = 0\<close> and the
  second player the three subgrids of the row \<open>y = 1\<close>.
\<close>

definition twoRowsState :: GameState where
  "twoRowsState =
     \<lparr> aSubgridBitboard = [7, 7, 7, 0, 0, 0, 0, 0, 0],
       bSubgridBitboard = [0, 0, 0, 7, 7, 7, 0, 0, 0],
       activeSubgrid = Any,
       playerToMove = PlayerX,
       complete = True,
       moves = [] \<rparr>"

text \<open>The first move of a game at the centre cell, and the state it leads to.\<close>

definition centreMove :: Move where
  "centreMove = \<lparr> coordinate = (4, 4), player = PlayerX, currentSubgrid = (1, 1) \<rparr>"

definition afterCentreMove :: GameState where
  "afterCentreMove = after (doMove initialGameState centreMove)"

text \<open>
  The states a game reaches: the initial state, and every state \<^verbatim>\<open>doMove\<close> leaves when
  it is given a move of \<^verbatim>\<open>legalMoves()\<close>, which is how the user interface and the search
  engine call it.
\<close>

inductive reachable :: "GameState \<Rightarrow> bool" where
  reachable_init: "reachable initialGameState"
| reachable_move: "reachable s \<Longrightarrow> m \<in> set (legalMoves s) \<Longrightarrow> reachable (after (doMove s m))"

text \<open>Playing a list of moves in turn, and whether each is legal where it is played.\<close>

fun playAll :: "GameState \<Rightarrow> Move list \<Rightarrow> GameState" where
  "playAll s [] = s"
| "playAll s (m # ms) = playAll (after (doMove s m)) ms"

fun legalRun :: "GameState \<Rightarrow> Move list \<Rightarrow> bool" where
  "legalRun s [] = True"
| "legalRun s (m # ms) = (m \<in> set (legalMoves s) \<and> legalRun (after (doMove s m)) ms)"

definition mv :: "nat \<Rightarrow> nat \<Rightarrow> Player \<Rightarrow> Move" where
  "mv x y p = \<lparr> coordinate = (x, y), player = p, currentSubgrid = (x div 3, y div 3) \<rparr>"

text \<open>
  A whole game of seventeen moves, in which the first player wins the three subgrids of
  the row \<open>y = 0\<close>.
\<close>

definition shortGame :: "Move list" where
  "shortGame =
     [mv 7 2 PlayerX, mv 4 6 PlayerO, mv 4 1 PlayerX, mv 4 3 PlayerO, mv 5 0 PlayerX,
      mv 6 0 PlayerO, mv 1 2 PlayerX, mv 5 6 PlayerO, mv 6 2 PlayerX, mv 0 6 PlayerO,
      mv 0 2 PlayerX, mv 2 6 PlayerO, mv 8 2 PlayerX, mv 6 6 PlayerO, mv 2 2 PlayerX,
      mv 8 6 PlayerO, mv 3 2 PlayerX]"

definition finishedState :: GameState where
  "finishedState = playAll initialGameState shortGame"

text \<open>
  The invariant of the reachable states: nine bitboards of nine bits for each player, a
  specific active subgrid that is in progress, and a \<^verbatim>\<open>complete\<close> flag that agrees with the
  board outcome.
\<close>

definition nineBit :: "bitboard \<Rightarrow> bool" where
  "nineBit w \<longleftrightarrow> (\<forall>k. bit w k \<longrightarrow> k < 9)"

definition wellFormed :: "GameState \<Rightarrow> bool" where
  "wellFormed s \<longleftrightarrow>
     length (aSubgridBitboard s) = 9 \<and> length (bSubgridBitboard s) = 9 \<and>
     (\<forall>w \<in> set (aSubgridBitboard s). nineBit w) \<and>
     (\<forall>w \<in> set (bSubgridBitboard s). nineBit w) \<and>
     (\<forall>c. activeSubgrid s = Subgrid c \<longrightarrow>
            fst c < 3 \<and> snd c < 3 \<and> checkWinSubgrid s c = OutcomeNone) \<and>
     (complete s \<longleftrightarrow> checkWinWholeBoard s \<noteq> OutcomeNone)"

section \<open>The search engine of \<^verbatim>\<open>src/mcts.ts\<close>\<close>

text \<open>
  Node objects refer to one another (a child to its parent, a parent to its children, the
  table \<^verbatim>\<open>nodes\<close> to all of them) and are updated in place, so the model keeps them in an
  explicit store: a list of nodes, a reference being the index at which the node was
  allocated. Nodes are created by \<^verbatim>\<open>makeNode\<close> and \<^verbatim>\<open>expand\<close> only, at the end of the
  store, and are never removed.
\<close>

type_synonym addr = nat

subsection \<open>Keys\<close>

text \<open>\<^verbatim>\<open>Array.join\<close> writes numbers in decimal.\<close>

fun natToString :: "nat \<Rightarrow> string" where
  "natToString n =
     (if n < 10 then [''0123456789'' ! n]
      else natToString (n div 10) @ [''0123456789'' ! (n mod 10)])"

fun playerToString :: "Player \<Rightarrow> string" where
  "playerToString PlayerX = ''X''"
| "playerToString PlayerO = ''O''"

definition moveHash :: "Move \<Rightarrow> string" where
  "moveHash move =
     natToString (fst (coordinate move)) @ playerToString (player move) @
     natToString (snd (coordinate move))"

fun joinWith :: "string \<Rightarrow> string list \<Rightarrow> string" where
  "joinWith sep [] = []"
| "joinWith sep [x] = x"
| "joinWith sep (x # y # ys) = x @ sep @ joinWith sep (y # ys)"

definition hash :: "GameState \<Rightarrow> string" where
  "hash s = joinWith '' '' (map moveHash (moves s))"

subsection \<open>The class \<^verbatim>\<open>MonteCarloNode\<close>\<close>

text \<open>
  A \<^verbatim>\<open>Map\<close> keeps its keys in insertion order, and \<^verbatim>\<open>set\<close> on a key already present
  replaces the value where it stands: an association list under \<open>AList.update\<close>. A
  child entry \<^verbatim>\<open>{play, node}\<close> is a pair, the node \<open>None\<close> while unexpanded.
\<close>

type_synonym childEntry = "Move \<times> addr option"

record MonteCarloNode =
  play :: "Move option"
  state :: GameState
  n_plays :: nat
  n_wins :: nat
  parent :: "addr option"
  children :: "(string \<times> childEntry) list"

definition newMonteCarloNode ::
  "addr option \<Rightarrow> Move option \<Rightarrow> GameState \<Rightarrow> Move list \<Rightarrow> MonteCarloNode" where
  "newMonteCarloNode parent' play' state' unexpandedPlays' =
     \<lparr> play = play', state = state', n_plays = 0, n_wins = 0, parent = parent',
       children = foldl (\<lambda>cs p. AList.update (moveHash p) (p, None) cs) [] unexpandedPlays' \<rparr>"

definition childNode :: "MonteCarloNode \<Rightarrow> Move \<Rightarrow> error + addr" where
  "childNode node play' =
     (case map_of (children node) (moveHash play') of
        None \<Rightarrow> Inl ChildNotFound
      | Some child \<Rightarrow>
          (case snd child of
             None \<Rightarrow> Inl ChildNotExpanded
           | Some a \<Rightarrow> Inr a))"

definition allPlays :: "MonteCarloNode \<Rightarrow> Move list" where
  "allPlays node = map (\<lambda>(k, child). fst child) (children node)"

definition unexpandedPlays :: "MonteCarloNode \<Rightarrow> Move list" where
  "unexpandedPlays node =
     map (\<lambda>(k, child). fst child) (filter (\<lambda>(k, child). snd child = None) (children node))"

definition isFullyExpanded :: "MonteCarloNode \<Rightarrow> bool" where
  "isFullyExpanded node \<longleftrightarrow> list_all (\<lambda>(k, child). snd child \<noteq> None) (children node)"

definition isLeaf :: "MonteCarloNode \<Rightarrow> bool" where
  "isLeaf node \<longleftrightarrow> length (children node) = 0"

text \<open>
  \<^verbatim>\<open>getUCB1\<close> computes in floating point. The model leaves the arithmetic open: it takes
  the value as a function of the three counters the formula reads, in any type, together
  with the comparison \<^verbatim>\<open>>\<close> on that type and the value of \<^verbatim>\<open>-Infinity\<close>. What is proved
  holds for every choice of the three.
\<close>

record 'u UCB1 =
  ucb1Value :: "nat \<Rightarrow> nat \<Rightarrow> nat \<Rightarrow> 'u"
  greater :: "'u \<Rightarrow> 'u \<Rightarrow> bool"
  negInfinity :: 'u

definition getUCB1 :: "'u UCB1 \<Rightarrow> MonteCarloNode list \<Rightarrow> MonteCarloNode \<Rightarrow> error + 'u" where
  "getUCB1 U h node =
     (case parent node of
        None \<Rightarrow> Inl UCB1Root
      | Some p \<Rightarrow> Inr (ucb1Value U (n_wins node) (n_plays node) (n_plays (h ! p))))"

subsection \<open>The class \<^verbatim>\<open>MonteCarlo\<close>\<close>

record MonteCarlo =
  heap :: "MonteCarloNode list"
  nodes :: "(string \<times> addr) list"

definition newMonteCarlo :: MonteCarlo where
  "newMonteCarlo = \<lparr> heap = [], nodes = [] \<rparr>"

definition makeNode :: "MonteCarlo \<Rightarrow> GameState \<Rightarrow> MonteCarlo" where
  "makeNode mc s =
     (if map_of (nodes mc) (hash s) = None
      then let unexpandedPlays' = legalMoves s;
               node = newMonteCarloNode None None s unexpandedPlays'
           in mc\<lparr> heap := heap mc @ [node],
                  nodes := AList.update (hash s) (length (heap mc)) (nodes mc) \<rparr>
      else mc)"

text \<open>
  The loop of \<^verbatim>\<open>bestPlay\<close> over \<^verbatim>\<open>allPlays\<close>, on the pair \<^verbatim>\<open>(bestPlay, max)\<close>; \<open>None\<close>
  stands for \<^verbatim>\<open>undefined\<close> in the first component and for \<^verbatim>\<open>-Infinity\<close> in the second.
\<close>

fun bestPlayLoop ::
  "MonteCarloNode list \<Rightarrow> MonteCarloNode \<Rightarrow> Move list \<Rightarrow> Move option \<times> nat option \<Rightarrow>
   error + Move option \<times> nat option"
where
  "bestPlayLoop h node [] acc = Inr acc"
| "bestPlayLoop h node (play' # plays) (bestPlay', max') =
     (case childNode node play' of
        Inl e \<Rightarrow> Inl e
      | Inr c \<Rightarrow>
          if n_plays (h ! c) = 0 then bestPlayLoop h node plays (bestPlay', max')
          else if (case max' of None \<Rightarrow> True | Some m \<Rightarrow> n_plays (h ! c) > m)
               then bestPlayLoop h node plays (Some play', Some (n_plays (h ! c)))
               else bestPlayLoop h node plays (bestPlay', max'))"

text \<open>\<^verbatim>\<open>bestPlay\<close> returns the play or throws, and leaves the tree \<^verbatim>\<open>makeNode\<close> made.\<close>

definition bestPlay :: "MonteCarlo \<Rightarrow> GameState \<Rightarrow> (error + Move) \<times> MonteCarlo" where
  "bestPlay mc s =
     (let mc1 = makeNode mc s
      in case map_of (nodes mc1) (hash s) of
           None \<Rightarrow> (Inl TypeError, mc1)
         | Some a \<Rightarrow>
             (let node = heap mc1 ! a
              in case bestPlayLoop (heap mc1) node (allPlays node) (None, None) of
                   Inl e \<Rightarrow> (Inl e, mc1)
                 | Inr (None, m) \<Rightarrow> (Inl NoBestPlay, mc1)
                 | Inr (Some p, m) \<Rightarrow> (Inr p, mc1)))"

text \<open>The inner loop of \<^verbatim>\<open>select\<close>, on the pair \<^verbatim>\<open>(bestPlay, bestUCB1)\<close>.\<close>

fun selectBest ::
  "'u UCB1 \<Rightarrow> MonteCarloNode list \<Rightarrow> MonteCarloNode \<Rightarrow> Move list \<Rightarrow> Move option \<times> 'u \<Rightarrow>
   error + Move option \<times> 'u"
where
  "selectBest U h node [] acc = Inr acc"
| "selectBest U h node (play' # plays) (bestPlay', bestUCB1) =
     (case childNode node play' of
        Inl e \<Rightarrow> Inl e
      | Inr c \<Rightarrow>
          (case getUCB1 U h (h ! c) of
             Inl e \<Rightarrow> Inl e
           | Inr childUCB1 \<Rightarrow>
               if greater U childUCB1 bestUCB1
               then selectBest U h node plays (Some play', childUCB1)
               else selectBest U h node plays (bestPlay', bestUCB1)))"

text \<open>
  The outer loop of \<^verbatim>\<open>select\<close> descends the tree and need not end on a store that is not
  a tree: not returning is the value \<open>None\<close>.
\<close>

partial_function (option) selectLoop ::
  "'u UCB1 \<Rightarrow> MonteCarloNode list \<Rightarrow> addr \<Rightarrow> (error + addr) option"
where
  "selectLoop U h a =
     (if isFullyExpanded (h ! a) \<and> \<not> isLeaf (h ! a)
      then (case selectBest U h (h ! a) (allPlays (h ! a)) (None, negInfinity U) of
              Inl e \<Rightarrow> Some (Inl e)
            | Inr (None, u) \<Rightarrow> Some (Inl NoBestPlay)
            | Inr (Some bestPlay', u) \<Rightarrow>
                (case childNode (h ! a) bestPlay' of
                   Inl e \<Rightarrow> Some (Inl e)
                 | Inr c \<Rightarrow> selectLoop U h c))
      else Some (Inr a))"

declare selectLoop.simps [code]

definition select :: "'u UCB1 \<Rightarrow> MonteCarlo \<Rightarrow> GameState \<Rightarrow> (error + addr) option" where
  "select U mc s =
     (case map_of (nodes mc) (hash s) of
        None \<Rightarrow> Some (Inl TypeError)
      | Some a \<Rightarrow> selectLoop U (heap mc) a)"

text \<open>
  \<^verbatim>\<open>Math.random()\<close> is a stream of draws \<open>rnd\<close>, read at a counter that every draw
  advances; \<^verbatim>\<open>Math.floor(Math.random() * n)\<close> can be any index below \<open>n\<close>, the draw modulo
  \<open>n\<close> in the model, and is 0 when \<open>n\<close> is 0.
\<close>

definition randomIndex :: "(nat \<Rightarrow> nat) \<Rightarrow> nat \<Rightarrow> nat \<Rightarrow> nat" where
  "randomIndex rnd k n = (if n = 0 then 0 else rnd k mod n)"

text \<open>
  \<^verbatim>\<open>expand\<close>: the chosen play, applied to a copy of the node's state, makes a new node at
  the end of the store. Reading \<^verbatim>\<open>plays[i]\<close> past the end gives \<^verbatim>\<open>undefined\<close>, on which
  \<^verbatim>\<open>doMove\<close> raises a \<^verbatim>\<open>TypeError\<close>.
\<close>

definition expand ::
  "MonteCarlo \<Rightarrow> addr \<Rightarrow> (nat \<Rightarrow> nat) \<Rightarrow> nat \<Rightarrow> error + MonteCarlo \<times> addr" where
  "expand mc a rnd k =
     (let node = heap mc ! a;
          plays = unexpandedPlays node;
          i = randomIndex rnd k (length plays)
      in if \<not> i < length plays then Inl TypeError
         else
           let randomMove = plays ! i;
               r = doMove (state node) randomMove
           in case thrown r of
                Some e \<Rightarrow> Inl e
              | None \<Rightarrow>
                  let childState = after r;
                      childUnexpandedPlays = legalMoves childState
                  in if map_of (children node) (moveHash randomMove) = None then Inl ChildNotFound
                     else
                       let c = length (heap mc);
                           childNode' = newMonteCarloNode (Some a) (Some randomMove) childState
                                          childUnexpandedPlays;
                           node' = node\<lparr> children :=
                                     AList.update (moveHash randomMove) (randomMove, Some c)
                                       (children node) \<rparr>
                       in Inr (mc\<lparr> heap := (heap mc)[a := node'] @ [childNode'],
                                   nodes := AList.update (hash childState) c (nodes mc) \<rparr>, c))"

text \<open>\<^verbatim>\<open>simulate\<close>: the playout loop, with the counter of the draws.\<close>

partial_function (option) simulateLoop ::
  "(nat \<Rightarrow> nat) \<Rightarrow> nat \<Rightarrow> GameState \<Rightarrow> GameOutcome \<Rightarrow> ((error + GameOutcome) \<times> nat) option"
where
  "simulateLoop rnd k s winner =
     (if winner = OutcomeNone
      then let plays = legalMoves s;
               i = randomIndex rnd k (length plays)
           in if \<not> i < length plays then Some (Inl TypeError, k + 1)
              else let r = doMove s (plays ! i)
                   in case thrown r of
                        Some e \<Rightarrow> Some (Inl e, k + 1)
                      | None \<Rightarrow> simulateLoop rnd (k + 1) (after r) (checkWinWholeBoard (after r))
      else Some (Inr winner, k))"

declare simulateLoop.simps [code]

definition simulate ::
  "MonteCarloNode \<Rightarrow> (nat \<Rightarrow> nat) \<Rightarrow> nat \<Rightarrow> ((error + GameOutcome) \<times> nat) option" where
  "simulate node rnd k = simulateLoop rnd k (state node) (checkWinWholeBoard (state node))"

text \<open>\<^verbatim>\<open>backpropagate\<close>: the walk up the parent references.\<close>

partial_function (option) backpropagate ::
  "MonteCarloNode list \<Rightarrow> addr option \<Rightarrow> GameOutcome \<Rightarrow> MonteCarloNode list option"
where
  "backpropagate h currentNode winner =
     (case currentNode of
        None \<Rightarrow> Some h
      | Some a \<Rightarrow>
          let node = h ! a;
              node1 = node\<lparr> n_plays := n_plays node + 1 \<rparr>;
              node2 = (if Owner (otherPlayer (playerToMove (state node1))) = winner
                       then node1\<lparr> n_wins := n_wins node1 + 1 \<rparr> else node1)
          in backpropagate (h[a := node2]) (parent node2) winner)"

declare backpropagate.simps [code]

text \<open>One round of the loop of \<^verbatim>\<open>runSearch\<close>.\<close>

definition searchIteration ::
  "'u UCB1 \<Rightarrow> (nat \<Rightarrow> nat) \<Rightarrow> GameState \<Rightarrow> MonteCarlo \<times> nat \<Rightarrow> (error + MonteCarlo \<times> nat) option"
where
  "searchIteration U rnd s mck =
     (case mck of (mc, k) \<Rightarrow>
        (case select U mc s of
           None \<Rightarrow> None
         | Some (Inl e) \<Rightarrow> Some (Inl e)
         | Some (Inr a) \<Rightarrow>
             (let node = heap mc ! a;
                  winner = checkWinWholeBoard (state node)
              in if isLeaf node = False \<and> winner = OutcomeNone
                 then (case expand mc a rnd k of
                         Inl e \<Rightarrow> Some (Inl e)
                       | Inr (mc1, c) \<Rightarrow>
                           (case simulate (heap mc1 ! c) rnd (k + 1) of
                              None \<Rightarrow> None
                            | Some (Inl e, k1) \<Rightarrow> Some (Inl e)
                            | Some (Inr winner1, k1) \<Rightarrow>
                                (case backpropagate (heap mc1) (Some c) winner1 of
                                   None \<Rightarrow> None
                                 | Some h \<Rightarrow> Some (Inr (mc1\<lparr> heap := h \<rparr>, k1)))))
                 else (case backpropagate (heap mc) (Some a) winner of
                         None \<Rightarrow> None
                       | Some h \<Rightarrow> Some (Inr (mc\<lparr> heap := h \<rparr>, k))))))"

text \<open>
  \<^verbatim>\<open>runSearch\<close> loops while \<^verbatim>\<open>Date.now() < end\<close>. The clock is outside the program: the
  model takes the number of rounds the clock allows.
\<close>

fun searchLoop ::
  "'u UCB1 \<Rightarrow> (nat \<Rightarrow> nat) \<Rightarrow> GameState \<Rightarrow> nat \<Rightarrow> MonteCarlo \<times> nat \<Rightarrow> (error + MonteCarlo \<times> nat) option"
where
  "searchLoop U rnd s 0 mck = Some (Inr mck)"
| "searchLoop U rnd s (Suc n) mck =
     (case searchIteration U rnd s mck of
        None \<Rightarrow> None
      | Some (Inl e) \<Rightarrow> Some (Inl e)
      | Some (Inr mck1) \<Rightarrow> searchLoop U rnd s n mck1)"

definition runSearch ::
  "'u UCB1 \<Rightarrow> (nat \<Rightarrow> nat) \<Rightarrow> nat \<Rightarrow> MonteCarlo \<Rightarrow> GameState \<Rightarrow> nat \<Rightarrow> (error + MonteCarlo \<times> nat) option"
where
  "runSearch U rnd k mc s rounds = searchLoop U rnd s rounds (makeNode mc s, k)"

text \<open>
  A search to run: the state one move before the end of \<open>shortGame\<close>, an arithmetic for
  the UCB1 values, and a stream of draws that is constantly 18, the index of the winning
  move among the legal moves of that state.
\<close>

definition afterSixteen :: GameState where
  "afterSixteen = playAll initialGameState (take 16 shortGame)"

definition testUCB1 :: "int UCB1" where
  "testUCB1 = \<lparr> ucb1Value = (\<lambda>w n p. int w), greater = (\<lambda>a b. a > b), negInfinity = - 1 \<rparr>"

definition oneRound :: "(error + MonteCarlo \<times> nat) option" where
  "oneRound = runSearch testUCB1 (\<lambda>k. 18) 0 newMonteCarlo afterSixteen 1"

text \<open>The tree that search leaves.\<close>

definition oneRoundTree :: MonteCarlo where
  "oneRoundTree = (case oneRound of Some (Inr (mc, k)) \<Rightarrow> mc | _ \<Rightarrow> newMonteCarlo)"

subsection \<open>The counters of a search tree\<close>

text \<open>
  What a node owes its parent: every node that has a parent was visited once when it was
  made, before any of its children existed.
\<close>

definition ownVisit :: "MonteCarloNode \<Rightarrow> nat" where
  "ownVisit node = (if parent node = None then 0 else 1)"

text \<open>
  The property of claim C4, as the code has it: at every node the wins are at most the
  visits, and the visits are at least those of every expanded child, plus one at every
  node but the root.
\<close>

definition countersHold :: "MonteCarloNode list \<Rightarrow> bool" where
  "countersHold h \<longleftrightarrow>
     (\<forall>node \<in> set h.
        n_wins node \<le> n_plays node \<and>
        (\<forall>entry \<in> set (children node).
           case snd (snd entry) of
             None \<Rightarrow> True
           | Some c \<Rightarrow> n_plays (h ! c) + ownVisit node \<le> n_plays node))"

text \<open>The nodes on the way from a node up to the root.\<close>

inductive onPath :: "MonteCarloNode list \<Rightarrow> addr \<Rightarrow> addr \<Rightarrow> bool" for h where
  onPath_self: "onPath h v v"
| onPath_step: "parent (h ! v) = Some p \<Longrightarrow> onPath h p b \<Longrightarrow> onPath h v b"

text \<open>
  The invariant of the store: parents are allocated before their children, the entries of
  a node refer to allocated nodes whose parent it is, the table refers to allocated nodes,
  and the counters are related as said above, along the parent references.
\<close>

definition treeShape :: "MonteCarloNode list \<Rightarrow> bool" where
  "treeShape h \<longleftrightarrow>
     (\<forall>a<length h. \<forall>p. parent (h ! a) = Some p \<longrightarrow> p < a) \<and>
     (\<forall>a<length h. \<forall>key pl c. (key, (pl, Some c)) \<in> set (children (h ! a)) \<longrightarrow>
        c < length h \<and> parent (h ! c) = Some a)"

definition treeCounters :: "MonteCarloNode list \<Rightarrow> addr set \<Rightarrow> bool" where
  "treeCounters h fresh \<longleftrightarrow>
     (\<forall>a<length h. n_wins (h ! a) \<le> n_plays (h ! a)) \<and>
     (\<forall>a<length h. \<forall>p. parent (h ! a) = Some p \<longrightarrow>
        n_plays (h ! a) + ownVisit (h ! p) \<le> n_plays (h ! p)) \<and>
     (\<forall>a<length h. a \<notin> fresh \<longrightarrow> ownVisit (h ! a) \<le> n_plays (h ! a))"

definition treeInvariant :: "MonteCarlo \<Rightarrow> bool" where
  "treeInvariant mc \<longleftrightarrow>
     treeShape (heap mc) \<and> treeCounters (heap mc) {} \<and>
     (\<forall>(key, a) \<in> set (nodes mc). a < length (heap mc))"

text \<open>What \<^verbatim>\<open>backpropagate\<close> does to one node: a visit more, and a win more when the winner is
  the player who moved into the node.\<close>

definition bump :: "MonteCarloNode \<Rightarrow> GameOutcome \<Rightarrow> MonteCarloNode" where
  "bump node w =
     (if Owner (otherPlayer (playerToMove (state node))) = w
      then node\<lparr> n_plays := n_plays node + 1, n_wins := n_wins node + 1 \<rparr>
      else node\<lparr> n_plays := n_plays node + 1 \<rparr>)"

(*DEFS-END*)

section \<open>Properties of the rule engine\<close>

subsection \<open>Bit-level facts\<close>

lemma and_mask_eq_iff:
  fixes b m :: bitboard
  shows "b AND m = m \<longleftrightarrow> (\<forall>i<32. bit m i \<longrightarrow> bit b i)"
  by (auto simp: bit_eq_iff bit_and_iff)

lemma bit_three:
  assumes "i < 32" "j < 32" "k < 32"
  shows "bit (push_bit i 1 OR push_bit j 1 OR push_bit k 1 :: bitboard) n \<longleftrightarrow> n = i \<or> n = j \<or> n = k"
  using assms by (auto simp: bit_or_iff bit_push_bit_iff bit_1_iff bit_exp_iff)

lemma and_three_bits:
  fixes b :: bitboard
  assumes "i < 32" "j < 32" "k < 32"
  shows "b AND (push_bit i 1 OR push_bit j 1 OR push_bit k 1) = (push_bit i 1 OR push_bit j 1 OR push_bit k 1)
           \<longleftrightarrow> bit b i \<and> bit b j \<and> bit b k"
proof -
  let ?m = "push_bit i 1 OR push_bit j 1 OR push_bit k 1 :: bitboard"
  have "b AND ?m = ?m \<longleftrightarrow> (\<forall>n<32. bit ?m n \<longrightarrow> bit b n)"
    by (rule and_mask_eq_iff)
  also have "\<dots> \<longleftrightarrow> (\<forall>n<32. (n = i \<or> n = j \<or> n = k) \<longrightarrow> bit b n)"
    by (simp only: bit_three [OF assms])
  also have "\<dots> \<longleftrightarrow> bit b i \<and> bit b j \<and> bit b k"
    using assms by blast
  finally show ?thesis .
qed

text \<open>The eight masks of \<^verbatim>\<open>isBitboardWinning\<close>, read as triples of bit indices.\<close>

lemma isBitboardWinning_bits:
  "isBitboardWinning b \<longleftrightarrow>
     bit b 6 \<and> bit b 7 \<and> bit b 8 \<or>
     bit b 3 \<and> bit b 4 \<and> bit b 5 \<or>
     bit b 0 \<and> bit b 1 \<and> bit b 2 \<or>
     bit b 2 \<and> bit b 5 \<and> bit b 8 \<or>
     bit b 1 \<and> bit b 4 \<and> bit b 7 \<or>
     bit b 0 \<and> bit b 3 \<and> bit b 6 \<or>
     bit b 0 \<and> bit b 4 \<and> bit b 8 \<or>
     bit b 2 \<and> bit b 4 \<and> bit b 6"
proof -
  have 1: "b AND 448 = 448 \<longleftrightarrow> bit b 6 \<and> bit b 7 \<and> bit b 8"
    using and_three_bits [of 6 7 8 b] by simp
  have 2: "b AND 56 = 56 \<longleftrightarrow> bit b 3 \<and> bit b 4 \<and> bit b 5"
    using and_three_bits [of 3 4 5 b] by simp
  have 3: "b AND 7 = 7 \<longleftrightarrow> bit b 0 \<and> bit b 1 \<and> bit b 2"
    using and_three_bits [of 0 1 2 b] by simp
  have 4: "b AND 292 = 292 \<longleftrightarrow> bit b 2 \<and> bit b 5 \<and> bit b 8"
    using and_three_bits [of 2 5 8 b] by simp
  have 5: "b AND 146 = 146 \<longleftrightarrow> bit b 1 \<and> bit b 4 \<and> bit b 7"
    using and_three_bits [of 1 4 7 b] by simp
  have 6: "b AND 73 = 73 \<longleftrightarrow> bit b 0 \<and> bit b 3 \<and> bit b 6"
    using and_three_bits [of 0 3 6 b] by simp
  have 7: "b AND 273 = 273 \<longleftrightarrow> bit b 0 \<and> bit b 4 \<and> bit b 8"
    using and_three_bits [of 0 4 8 b] by simp
  have 8: "b AND 84 = 84 \<longleftrightarrow> bit b 2 \<and> bit b 4 \<and> bit b 6"
    using and_three_bits [of 2 4 6 b] by simp
  show ?thesis
    unfolding isBitboardWinning_def by (simp only: 1 2 3 4 5 6 7 8)
qed

lemma eq_511_iff: "(w :: bitboard) = 511 \<longleftrightarrow> (\<forall>i<32. bit w i \<longleftrightarrow> i < 9)"
proof -
  have "(511 :: bitboard) = mask 9"
    by (simp add: mask_eq_exp_minus_1)
  then show ?thesis
    by (auto simp: bit_eq_iff bit_simps)
qed

lemma bit_setBit:
  "x < 3 \<Longrightarrow> y < 3 \<Longrightarrow> bit (setBit b x y) i \<longleftrightarrow> bit b i \<or> i = x + y * 3"
  by (auto simp: setBit_def bit_simps)

lemma bit_unsetBit:
  "x < 3 \<Longrightarrow> y < 3 \<Longrightarrow> bit (unsetBit b x y) i \<longleftrightarrow> bit b i \<and> i \<noteq> x + y * 3"
  by (auto simp: unsetBit_def bit_simps dest: bit_imp_le_length)

lemma getBit_iff:
  assumes "x < 3" "y < 3"
  shows "getBit b x y \<noteq> 0 \<longleftrightarrow> bit b (x + y * 3)"
proof -
  have n: "x + y * 3 < 32"
    using assms by simp
  have "getBit b x y \<noteq> 0 \<longleftrightarrow> odd (signed_drop_bit (x + y * 3) b)"
    using n by (simp add: getBit_def and_one_eq odd_iff_mod_2_eq_one)
  also have "\<dots> \<longleftrightarrow> bit (signed_drop_bit (x + y * 3) b) 0"
    by (simp add: bit_0)
  also have "\<dots> \<longleftrightarrow> bit b (x + y * 3)"
    using n by (simp add: bit_signed_drop_bit_iff)
  finally show ?thesis .
qed

subsection \<open>The symmetry of the subgrid outcome\<close>

text \<open>
  Claim C8, as stated: for every pair of 9-bit bitboards, the outcome of the swapped pair
  is the outcome of the pair with the player labels exchanged. It fails where both
  bitboards hold a winning triple: \<^verbatim>\<open>bitboardGridResult\<close> tests its first argument
  first, so both orders answer \<^verbatim>\<open>'X'\<close>. The bitboards 7 (cells 0, 1, 2) and 56 (cells
  3, 4, 5) are 9-bit, share no cell and are both winning.
\<close>

theorem subgridOutcome_swap_counterexample:
  "(7 :: bitboard) \<le> 511 \<and> (56 :: bitboard) \<le> 511 \<and> (7 :: bitboard) AND 56 = 0 \<and>
   bitboardGridResult 56 7 \<noteq> swapLabels (bitboardGridResult 7 56)"
  by (simp add: bitboardGridResult_def isBitboardWinning_def)

text \<open>
  Claim C8, amended: for every pair of bitboards that are not both winning, the outcome
  of the swapped pair is the outcome of the pair with the player labels exchanged
  (drawn and in-progress map to themselves); when both are winning, both orders give
  the first player.
\<close>

theorem subgridOutcome_swap:
  "(\<not> (isBitboardWinning xBitboard \<and> isBitboardWinning yBitboard) \<longrightarrow>
      bitboardGridResult yBitboard xBitboard = swapLabels (bitboardGridResult xBitboard yBitboard)) \<and>
   (isBitboardWinning xBitboard \<and> isBitboardWinning yBitboard \<longrightarrow>
      bitboardGridResult xBitboard yBitboard = Owner PlayerX \<and>
      bitboardGridResult yBitboard xBitboard = Owner PlayerX)"
  by (auto simp: bitboardGridResult_def or.commute)

theorem subgridOutcome_swap_witness:
  "\<not> (isBitboardWinning 7 \<and> isBitboardWinning 24) \<and>
   bitboardGridResult 7 24 = Owner PlayerX \<and>
   bitboardGridResult 24 7 = swapLabels (bitboardGridResult 7 24) \<and>
   isBitboardWinning 7 \<and> isBitboardWinning 56 \<and>
   bitboardGridResult 7 56 = Owner PlayerX \<and>
   bitboardGridResult 56 7 = Owner PlayerX"
  using subgridOutcome_swap [of 7 24] subgridOutcome_swap [of 7 56]
  by (simp add: bitboardGridResult_def isBitboardWinning_def)

subsection \<open>The board outcome\<close>

lemma grid3_iff: "(x, y) \<in> set grid3 \<longleftrightarrow> x < 3 \<and> y < 3"
proof -
  have "x < 3 \<longleftrightarrow> x = 0 \<or> x = 1 \<or> x = 2" by arith
  moreover have "y < 3 \<longleftrightarrow> y = 0 \<or> y = 1 \<or> y = 2" by arith
  ultimately show ?thesis by (auto simp: grid3_def)
qed

lemma wholeBoardStep_bits:
  assumes "x < 3" "y < 3" "wholeBoardStep s (a, b, n) (x, y) = (a', b', n')"
  shows "(bit a' i \<longleftrightarrow> bit a i \<or> (i = x + y * 3 \<and> checkWinSubgrid s (x, y) = Owner PlayerX)) \<and>
         (bit b' i \<longleftrightarrow> bit b i \<or> (i = x + y * 3 \<and> checkWinSubgrid s (x, y) = Owner PlayerO)) \<and>
         (bit n' i \<longleftrightarrow> bit n i \<or> (i = x + y * 3 \<and> checkWinSubgrid s (x, y) = OutcomeDraw))"
  using assms by (auto simp: Let_def bit_setBit split: if_splits)

lemma foldl_wholeBoardStep_bits:
  assumes "\<forall>c \<in> set cs. fst c < 3 \<and> snd c < 3"
    and "foldl (wholeBoardStep s) (a, b, n) cs = (a', b', n')"
  shows "(bit a' i \<longleftrightarrow> bit a i \<or> (\<exists>c \<in> set cs. i = fst c + snd c * 3 \<and> checkWinSubgrid s c = Owner PlayerX)) \<and>
         (bit b' i \<longleftrightarrow> bit b i \<or> (\<exists>c \<in> set cs. i = fst c + snd c * 3 \<and> checkWinSubgrid s c = Owner PlayerO)) \<and>
         (bit n' i \<longleftrightarrow> bit n i \<or> (\<exists>c \<in> set cs. i = fst c + snd c * 3 \<and> checkWinSubgrid s c = OutcomeDraw))"
  using assms
proof (induction cs arbitrary: a b n)
  case Nil
  then show ?case by simp
next
  case (Cons c cs)
  obtain x y where c: "c = (x, y)" by (cases c)
  obtain a1 b1 n1 where st: "wholeBoardStep s (a, b, n) (x, y) = (a1, b1, n1)"
    by (cases "wholeBoardStep s (a, b, n) (x, y)")
  have xy: "x < 3" "y < 3" using Cons.prems(1) c by auto
  have rest: "foldl (wholeBoardStep s) (a1, b1, n1) cs = (a', b', n')"
    using Cons.prems(2) c st by simp
  have cs: "\<forall>c \<in> set cs. fst c < 3 \<and> snd c < 3" using Cons.prems(1) by simp
  note IH = Cons.IH [OF cs rest]
  note S = wholeBoardStep_bits [OF xy st, of i]
  show ?case using IH S c by auto
qed


lemma grid3_cell_iff:
  "(\<exists>c \<in> set grid3. i = fst c + snd c * 3 \<and> P c) \<longleftrightarrow> i < 9 \<and> P (i mod 3, i div 3)"
proof
  assume "\<exists>c \<in> set grid3. i = fst c + snd c * 3 \<and> P c"
  then obtain x y where "(x, y) \<in> set grid3" "i = x + y * 3" "P (x, y)" by auto
  moreover from this have "x < 3" "y < 3" by (simp_all add: grid3_iff)
  ultimately show "i < 9 \<and> P (i mod 3, i div 3)" by simp
next
  assume "i < 9 \<and> P (i mod 3, i div 3)"
  moreover from this have "i < 9" by simp
  then have "i div 3 < 3" by presburger
  then have "(i mod 3, i div 3) \<in> set grid3" by (simp add: grid3_iff)
  ultimately show "\<exists>c \<in> set grid3. i = fst c + snd c * 3 \<and> P c"
    by (intro bexI [of _ "(i mod 3, i div 3)"]) simp_all
qed

lemma metaBoard_bits:
  assumes "foldl (wholeBoardStep s) (0, 0, 0) grid3 = (xW, yW, nB)"
  shows "bit xW i \<longleftrightarrow> i < 9 \<and> checkWinSubgrid s (i mod 3, i div 3) = Owner PlayerX"
    and "bit yW i \<longleftrightarrow> i < 9 \<and> checkWinSubgrid s (i mod 3, i div 3) = Owner PlayerO"
    and "bit nB i \<longleftrightarrow> i < 9 \<and> checkWinSubgrid s (i mod 3, i div 3) = OutcomeDraw"
proof -
  have g: "\<forall>c \<in> set grid3. fst c < 3 \<and> snd c < 3"
    by (auto simp: grid3_iff)
  note F = foldl_wholeBoardStep_bits [OF g assms, of i]
  show "bit xW i \<longleftrightarrow> i < 9 \<and> checkWinSubgrid s (i mod 3, i div 3) = Owner PlayerX"
    using F by (simp add: grid3_cell_iff)
  show "bit yW i \<longleftrightarrow> i < 9 \<and> checkWinSubgrid s (i mod 3, i div 3) = Owner PlayerO"
    using F by (simp add: grid3_cell_iff)
  show "bit nB i \<longleftrightarrow> i < 9 \<and> checkWinSubgrid s (i mod 3, i div 3) = OutcomeDraw"
    using F by (simp add: grid3_cell_iff)
qed

lemma metaBoard_winning:
  assumes "\<And>i. bit w i \<longleftrightarrow> i < 9 \<and> checkWinSubgrid s (i mod 3, i div 3) = Owner p"
  shows "isBitboardWinning w \<longleftrightarrow> ownsMetaTriple s p"
proof -
  have b: "bit w 0 \<longleftrightarrow> checkWinSubgrid s (0, 0) = Owner p"
    "bit w 1 \<longleftrightarrow> checkWinSubgrid s (1, 0) = Owner p"
    "bit w 2 \<longleftrightarrow> checkWinSubgrid s (2, 0) = Owner p"
    "bit w 3 \<longleftrightarrow> checkWinSubgrid s (0, 1) = Owner p"
    "bit w 4 \<longleftrightarrow> checkWinSubgrid s (1, 1) = Owner p"
    "bit w 5 \<longleftrightarrow> checkWinSubgrid s (2, 1) = Owner p"
    "bit w 6 \<longleftrightarrow> checkWinSubgrid s (0, 2) = Owner p"
    "bit w 7 \<longleftrightarrow> checkWinSubgrid s (1, 2) = Owner p"
    "bit w 8 \<longleftrightarrow> checkWinSubgrid s (2, 2) = Owner p"
    by (simp_all add: assms)
  have "ownsMetaTriple s p \<longleftrightarrow>
     bit w 0 \<and> bit w 1 \<and> bit w 2 \<or>
     bit w 3 \<and> bit w 4 \<and> bit w 5 \<or>
     bit w 6 \<and> bit w 7 \<and> bit w 8 \<or>
     bit w 0 \<and> bit w 3 \<and> bit w 6 \<or>
     bit w 1 \<and> bit w 4 \<and> bit w 7 \<or>
     bit w 2 \<and> bit w 5 \<and> bit w 8 \<or>
     bit w 0 \<and> bit w 4 \<and> bit w 8 \<or>
     bit w 2 \<and> bit w 4 \<and> bit w 6"
    unfolding b ownsMetaTriple_def winningTriples_def by simp
  then show ?thesis
    unfolding isBitboardWinning_bits by blast
qed

lemma all_cells_iff: "(\<forall>i<9. P (i mod 3, i div 3)) \<longleftrightarrow> (\<forall>c \<in> set grid3. P c)"
proof
  assume a: "\<forall>i<9. P (i mod 3, i div 3)"
  show "\<forall>c \<in> set grid3. P c"
  proof
    fix c assume "c \<in> set grid3"
    moreover obtain x y where "c = (x, y)" by (cases c)
    ultimately have c: "c = (x, y)" "x < 3" "y < 3" by (simp_all add: grid3_iff)
    then have "x + y * 3 < 9" by simp
    with a have "P ((x + y * 3) mod 3, (x + y * 3) div 3)" by blast
    with c show "P c" by simp
  qed
next
  assume "\<forall>c \<in> set grid3. P c"
  moreover have "i div 3 < 3" if "i < 9" for i :: nat using that by presburger
  ultimately show "\<forall>i<9. P (i mod 3, i div 3)" by (simp add: grid3_iff)
qed

lemma all_lt32_lt9: "(\<forall>i<32::nat. (i < 9 \<and> Q i) = (i < 9)) \<longleftrightarrow> (\<forall>i<9. Q i)"
proof -
  have "i < 32" if "i < 9" for i :: nat
    using that by simp
  then show ?thesis by blast
qed

lemma outcome_decided_iff:
  "c \<noteq> OutcomeNone \<longleftrightarrow> c = Owner PlayerX \<or> c = Owner PlayerO \<or> c = OutcomeDraw"
proof (cases c)
  case (Owner p)
  then show ?thesis by (cases p) auto
qed auto

lemma metaBoard_full:
  assumes "foldl (wholeBoardStep s) (0, 0, 0) grid3 = (xW, yW, nB)"
  shows "xW OR yW OR nB = 511 \<longleftrightarrow> allSubgridsDecided s"
proof -
  have "xW OR yW OR nB = 511 \<longleftrightarrow>
        (\<forall>i<32. (bit xW i \<or> bit yW i \<or> bit nB i) \<longleftrightarrow> i < 9)"
    by (simp add: eq_511_iff bit_or_iff)
  also have "\<dots> \<longleftrightarrow> (\<forall>i<9. checkWinSubgrid s (i mod 3, i div 3) \<noteq> OutcomeNone)"
  proof -
    have "(bit xW i \<or> bit yW i \<or> bit nB i) \<longleftrightarrow>
          i < 9 \<and> checkWinSubgrid s (i mod 3, i div 3) \<noteq> OutcomeNone" for i
      unfolding metaBoard_bits [OF assms] outcome_decided_iff by blast
    then show ?thesis by (simp only: all_lt32_lt9)
  qed
  also have "\<dots> \<longleftrightarrow> allSubgridsDecided s"
    unfolding allSubgridsDecided_def
    using all_cells_iff [of "\<lambda>c. checkWinSubgrid s c \<noteq> OutcomeNone"] by simp
  finally show ?thesis .
qed

lemma metaBoard_owned_full:
  assumes "foldl (wholeBoardStep s) (0, 0, 0) grid3 = (xW, yW, nB)" "xW OR yW = 511"
  shows "allSubgridsDecided s"
proof -
  have "\<forall>i<32. (bit xW i \<or> bit yW i) \<longleftrightarrow> i < 9"
    using assms(2) by (simp add: eq_511_iff bit_or_iff)
  then have "bit xW i \<or> bit yW i" if "i < 9" for i
    using that by simp
  then have "checkWinSubgrid s (i mod 3, i div 3) \<noteq> OutcomeNone" if "i < 9" for i
    using that unfolding metaBoard_bits [OF assms(1)] by fastforce
  then have "\<forall>i<9. checkWinSubgrid s (i mod 3, i div 3) \<noteq> OutcomeNone"
    by blast
  then show ?thesis
    unfolding allSubgridsDecided_def
    using all_cells_iff [of "\<lambda>c. checkWinSubgrid s c \<noteq> OutcomeNone"] by simp
qed

lemma checkWinWholeBoard_none_undecided:
  assumes "checkWinWholeBoard s = OutcomeNone"
  shows "\<not> allSubgridsDecided s"
proof -
  obtain xW yW nB where f: "foldl (wholeBoardStep s) (0, 0, 0) grid3 = (xW, yW, nB)"
    by (cases "foldl (wholeBoardStep s) (0, 0, 0) grid3")
  have "xW OR yW OR nB \<noteq> 511"
    using assms unfolding checkWinWholeBoard_def f by (auto simp: Let_def split: if_splits)
  then show ?thesis
    by (simp add: metaBoard_full [OF f])
qed

text \<open>
  Claim C7, as stated: for every game state, the board outcome is a player whenever that
  player owns a winning meta-triple. On \<open>twoRowsState\<close> the second player owns the
  row \<open>y = 1\<close> of subgrids, and the board outcome is the first player.
\<close>

theorem boardOutcome_counterexample:
  "ownsMetaTriple twoRowsState PlayerO \<and> checkWinWholeBoard twoRowsState \<noteq> Owner PlayerO"
  by code_simp

text \<open>
  Claim C7, amended: for every game state, \<^verbatim>\<open>checkWinWholeBoard\<close> is the winning-triple
  test on the meta-board of subgrid outcomes, drawn subgrids owned by neither player: it
  returns the first player when the first player owns a winning meta-triple, the second
  player when the second player owns one and the first player owns none, drawn when
  neither owns one and no subgrid is in progress, and in progress otherwise.
\<close>

theorem boardOutcome_meta: "checkWinWholeBoard s = boardOutcomeSpec s"
proof -
  obtain xW yW nB where f: "foldl (wholeBoardStep s) (0, 0, 0) grid3 = (xW, yW, nB)"
    by (cases "foldl (wholeBoardStep s) (0, 0, 0) grid3")
  have wx: "isBitboardWinning xW \<longleftrightarrow> ownsMetaTriple s PlayerX"
    by (rule metaBoard_winning) (rule metaBoard_bits [OF f])
  have wo: "isBitboardWinning yW \<longleftrightarrow> ownsMetaTriple s PlayerO"
    by (rule metaBoard_winning) (rule metaBoard_bits [OF f])
  note full = metaBoard_full [OF f] metaBoard_owned_full [OF f]
  show ?thesis
    unfolding checkWinWholeBoard_def boardOutcomeSpec_def f
    using full by (auto simp: bitboardGridResult_def wx wo)
qed


theorem boardOutcome_meta_witness:
  "checkWinWholeBoard initialGameState = OutcomeNone \<and>
   boardOutcomeSpec initialGameState = OutcomeNone \<and>
   checkWinWholeBoard twoRowsState = Owner PlayerX \<and>
   boardOutcomeSpec twoRowsState = Owner PlayerX"
proof -
  have "boardOutcomeSpec initialGameState = OutcomeNone"
    by code_simp
  moreover have "boardOutcomeSpec twoRowsState = Owner PlayerX"
    by code_simp
  ultimately show ?thesis
    using boardOutcome_meta [of initialGameState] boardOutcome_meta [of twoRowsState] by simp
qed

subsection \<open>Applying a move\<close>

lemma readBitboard_writeBitboard_same: "readBitboard (writeBitboard bs i v) i = v"
  by (simp add: readBitboard_def writeBitboard_def nth_append)

lemma checkWinSubgrid_cong:
  "aSubgridBitboard s = aSubgridBitboard t \<Longrightarrow> bSubgridBitboard s = bSubgridBitboard t \<Longrightarrow>
   checkWinSubgrid s c = checkWinSubgrid t c"
  by (simp add: checkWinSubgrid_def)

text \<open>
  Claim C6: a move on an occupied cell fails with \<open>OccupiedCell\<close>; a move on an empty
  cell outside a specific active subgrid fails with \<open>WrongSubgrid\<close>; a move that fails
  leaves the whole game state as it was and makes no call to the hook; a move on an empty
  cell that respects the active subgrid succeeds and calls the hook exactly once, with the
  move.
\<close>

theorem doMove_rejection:
  "(getTile s (coordinate m) = Some t \<longrightarrow>
      doMove s m = \<lparr> thrown = Some (OccupiedCell t), after = s, hookCalls = [] \<rparr>) \<and>
   (getTile s (coordinate m) = None \<and> activeSubgrid s = Subgrid a \<and>
    a \<noteq> (fst (coordinate m) div 3, snd (coordinate m) div 3) \<longrightarrow>
      doMove s m = \<lparr> thrown = Some WrongSubgrid, after = s, hookCalls = [] \<rparr>) \<and>
   (getTile s (coordinate m) = None \<and>
    (activeSubgrid s = Any \<or>
     activeSubgrid s = Subgrid (fst (coordinate m) div 3, snd (coordinate m) div 3)) \<longrightarrow>
      thrown (doMove s m) = None \<and> hookCalls (doMove s m) = [m]) \<and>
   (thrown (doMove s m) \<noteq> None \<longrightarrow> after (doMove s m) = s \<and> hookCalls (doMove s m) = [])"
  by (auto simp: doMove_def Let_def coordinatesEqual_def split: option.splits ActiveSubgrid.splits)

theorem doMove_rejection_witness:
  "getTile afterCentreMove (4, 4) = Some PlayerX \<and>
   doMove afterCentreMove \<lparr> coordinate = (4, 4), player = PlayerO, currentSubgrid = (1, 1) \<rparr> =
     \<lparr> thrown = Some (OccupiedCell PlayerX), after = afterCentreMove, hookCalls = [] \<rparr> \<and>
   getTile afterCentreMove (0, 0) = None \<and> activeSubgrid afterCentreMove = Subgrid (1, 1) \<and>
   doMove afterCentreMove \<lparr> coordinate = (0, 0), player = PlayerO, currentSubgrid = (0, 0) \<rparr> =
     \<lparr> thrown = Some WrongSubgrid, after = afterCentreMove, hookCalls = [] \<rparr> \<and>
   getTile initialGameState (4, 4) = None \<and> activeSubgrid initialGameState = Any \<and>
   thrown (doMove initialGameState centreMove) = None \<and>
   hookCalls (doMove initialGameState centreMove) = [centreMove]"
proof -
  have 1: "getTile afterCentreMove (4, 4) = Some PlayerX" by code_simp
  have 2: "getTile afterCentreMove (0, 0) = None" by code_simp
  have 3: "activeSubgrid afterCentreMove = Subgrid (1, 1)" by code_simp
  have 4: "getTile initialGameState (4, 4) = None" by code_simp
  have 5: "activeSubgrid initialGameState = Any" by code_simp
  show ?thesis
    using 1 2 3 4 5
      doMove_rejection [of afterCentreMove "\<lparr> coordinate = (4, 4), player = PlayerO, currentSubgrid = (1, 1) \<rparr>" PlayerX]
      doMove_rejection [of afterCentreMove "\<lparr> coordinate = (0, 0), player = PlayerO, currentSubgrid = (0, 0) \<rparr>" _ "(1, 1)"]
      doMove_rejection [of initialGameState centreMove]
    by (simp add: centreMove_def)
qed

subsection \<open>Legal moves\<close>

lemma offsets3_iff: "(x, y) \<in> set offsets3 \<longleftrightarrow> x < 3 \<and> y < 3"
  using grid3_iff [of x y] by (simp add: grid3_def offsets3_def)

lemma legalMovesSubgrid_iff:
  "m \<in> set (legalMovesSubgrid s (x, y)) \<longleftrightarrow>
     (\<exists>ox<3. \<exists>oy<3.
        getBit (readBitboard (aSubgridBitboard s) (x + y * 3)) ox oy = 0 \<and>
        getBit (readBitboard (bSubgridBitboard s) (x + y * 3)) ox oy = 0 \<and>
        m = \<lparr> coordinate = (x * 3 + ox, y * 3 + oy), player = playerToMove s,
              currentSubgrid = (x, y) \<rparr>)"
  by (auto simp: legalMovesSubgrid_def Let_def offsets3_iff image_iff)

lemma bex_grid3: "(\<exists>c \<in> set grid3. P c) \<longleftrightarrow> (\<exists>x<3. \<exists>y<3. P (x, y))"
proof
  assume "\<exists>c \<in> set grid3. P c"
  then obtain x y where "(x, y) \<in> set grid3" "P (x, y)" by auto
  then show "\<exists>x<3. \<exists>y<3. P (x, y)" unfolding grid3_iff by blast
next
  assume "\<exists>x<3. \<exists>y<3. P (x, y)"
  then obtain x y where "x < 3" "y < 3" "P (x, y)" by blast
  then have "(x, y) \<in> set grid3" "P (x, y)" by (simp_all add: grid3_iff)
  then show "\<exists>c \<in> set grid3. P c" by blast
qed

lemma legalMoves_iff:
  "m \<in> set (legalMoves s) \<longleftrightarrow>
     \<not> complete s \<and>
     (\<exists>x<3. \<exists>y<3.
        checkWinSubgrid s (x, y) = OutcomeNone \<and>
        (activeSubgrid s = Any \<or> activeSubgrid s = Subgrid (x, y)) \<and>
        m \<in> set (legalMovesSubgrid s (x, y)))"
proof (cases "complete s")
  case True
  then show ?thesis by (simp add: legalMoves_def)
next
  case False
  have cond: "(activeSubgrid s = Any \<or>
               (case activeSubgrid s of Any \<Rightarrow> False | Subgrid a \<Rightarrow> coordinatesEqual a c))
             \<longleftrightarrow> (activeSubgrid s = Any \<or> activeSubgrid s = Subgrid c)" for c
    by (cases "activeSubgrid s") (auto simp: coordinatesEqual_def prod_eq_iff)
  have "m \<in> set (legalMoves s) \<longleftrightarrow>
        (\<exists>c \<in> set grid3. checkWinSubgrid s c = OutcomeNone \<and>
           (activeSubgrid s = Any \<or> activeSubgrid s = Subgrid c) \<and>
           m \<in> set (legalMovesSubgrid s c))"
  proof -
    have "set (legalMoves s) =
          (\<Union>c \<in> set grid3.
             if checkWinSubgrid s c = OutcomeNone \<and>
                (activeSubgrid s = Any \<or> activeSubgrid s = Subgrid c)
             then set (legalMovesSubgrid s c) else {})"
      using False by (simp add: legalMoves_def case_prod_beta cond) (auto split: if_splits)
    then show ?thesis by (auto split: if_splits)
  qed
  also have "\<dots> \<longleftrightarrow> (\<exists>x<3. \<exists>y<3.
        checkWinSubgrid s (x, y) = OutcomeNone \<and>
        (activeSubgrid s = Any \<or> activeSubgrid s = Subgrid (x, y)) \<and>
        m \<in> set (legalMovesSubgrid s (x, y)))"
    by (rule bex_grid3)
  finally show ?thesis using False by simp
qed

lemma getBit_setBit_same:
  "x < 3 \<Longrightarrow> y < 3 \<Longrightarrow> getBit (setBit b x y) x y \<noteq> 0"
  by (simp add: getBit_iff bit_setBit)

lemma getTile_None_iff:
  "getTile s c = None \<longleftrightarrow>
     getBit (readBitboard (aSubgridBitboard s) (fst c div 3 + snd c div 3 * 3)) (fst c mod 3) (snd c mod 3) = 0 \<and>
     getBit (readBitboard (bSubgridBitboard s) (fst c div 3 + snd c div 3 * 3)) (fst c mod 3) (snd c mod 3) = 0"
  by (simp add: getTile_def Let_def)

lemma doMove_accepts:
  "getTile s (coordinate m) = None \<Longrightarrow>
   activeSubgrid s = Any \<or>
     activeSubgrid s = Subgrid (fst (coordinate m) div 3, snd (coordinate m) div 3) \<Longrightarrow>
   thrown (doMove s m) = None \<and> hookCalls (doMove s m) = [m]"
  by (auto simp: doMove_def Let_def coordinatesEqual_def)

lemma legalMoves_pre:
  assumes "m \<in> set (legalMoves s)"
  shows "getTile s (coordinate m) = None"
    and "activeSubgrid s = Any \<or>
         activeSubgrid s = Subgrid (fst (coordinate m) div 3, snd (coordinate m) div 3)"
    and "player m = playerToMove s"
proof -
  from assms obtain x y ox oy where
    b: "x < 3" "y < 3" "ox < 3" "oy < 3"
    and act: "activeSubgrid s = Any \<or> activeSubgrid s = Subgrid (x, y)"
    and ga: "getBit (readBitboard (aSubgridBitboard s) (x + y * 3)) ox oy = 0"
    and gb: "getBit (readBitboard (bSubgridBitboard s) (x + y * 3)) ox oy = 0"
    and m: "m = \<lparr> coordinate = (x * 3 + ox, y * 3 + oy), player = playerToMove s,
                   currentSubgrid = (x, y) \<rparr>"
    unfolding legalMoves_iff legalMovesSubgrid_iff by blast
  have c: "fst (coordinate m) div 3 = x" "snd (coordinate m) div 3 = y"
    "fst (coordinate m) mod 3 = ox" "snd (coordinate m) mod 3 = oy"
    using b m by simp_all
  show "getTile s (coordinate m) = None"
    unfolding getTile_None_iff c using ga gb by simp
  show "activeSubgrid s = Any \<or>
        activeSubgrid s = Subgrid (fst (coordinate m) div 3, snd (coordinate m) div 3)"
    using act unfolding c .
  show "player m = playerToMove s"
    using m by simp
qed

lemma legalMoves_not_thrown: "m \<in> set (legalMoves s) \<Longrightarrow> thrown (doMove s m) = None"
  using doMove_accepts [OF legalMoves_pre(1,2)] by simp

text \<open>
  Claim C9: in every game state (so in every reachable one), each move of \<^verbatim>\<open>legalMoves()\<close>
  targets an empty cell, lies in the active subgrid whenever that is a specific one, and
  carries the player to move; \<^verbatim>\<open>doMove\<close> applied to it throws nothing.
\<close>

theorem legalMoves_accepted:
  assumes "m \<in> set (legalMoves s)"
  shows "getTile s (coordinate m) = None \<and>
         (\<forall>a. activeSubgrid s = Subgrid a \<longrightarrow>
                a = (fst (coordinate m) div 3, snd (coordinate m) div 3)) \<and>
         player m = playerToMove s \<and>
         thrown (doMove s m) = None"
proof -
  note pre = legalMoves_pre [OF assms]
  have "\<forall>a. activeSubgrid s = Subgrid a \<longrightarrow>
              a = (fst (coordinate m) div 3, snd (coordinate m) div 3)"
    using pre(2) by auto
  moreover have "thrown (doMove s m) = None"
    using assms by (rule legalMoves_not_thrown)
  ultimately show ?thesis
    using pre(1,3) by simp
qed

theorem legalMoves_accepted_witness:
  "centreMove \<in> set (legalMoves initialGameState) \<and>
   getTile initialGameState (coordinate centreMove) = None \<and>
   player centreMove = playerToMove initialGameState \<and>
   thrown (doMove initialGameState centreMove) = None \<and>
   \<lparr> coordinate = (3, 3), player = PlayerO, currentSubgrid = (1, 1) \<rparr>
     \<in> set (legalMoves afterCentreMove) \<and>
   activeSubgrid afterCentreMove = Subgrid (1, 1) \<and>
   thrown (doMove afterCentreMove
             \<lparr> coordinate = (3, 3), player = PlayerO, currentSubgrid = (1, 1) \<rparr>) = None"
proof -
  have 1: "centreMove \<in> set (legalMoves initialGameState)"
    by code_simp
  have 2: "\<lparr> coordinate = (3, 3), player = PlayerO, currentSubgrid = (1, 1) \<rparr>
             \<in> set (legalMoves afterCentreMove)"
    by code_simp
  have 3: "activeSubgrid afterCentreMove = Subgrid (1, 1)"
    by code_simp
  show ?thesis
    using 1 2 3 legalMoves_accepted [OF 1] legalMoves_accepted [OF 2] by simp
qed

subsection \<open>Moves into a finished game\<close>

lemma finishedState_value: "finishedState =
     \<lparr> aSubgridBitboard = [448, 84, 448, 0, 0, 0, 0, 0, 0],
       bSubgridBitboard = [0, 0, 1, 0, 2, 0, 5, 6, 5],
       activeSubgrid = Subgrid (0, 2),
       playerToMove = PlayerO,
       complete = True,
       moves = shortGame \<rparr>"
  by code_simp

lemma getTile_doMove:
  assumes "thrown (doMove s m) = None"
  shows "getTile (after (doMove s m)) (coordinate m) = Some (player m)"
proof -
  let ?ox = "fst (coordinate m) mod 3" and ?oy = "snd (coordinate m) mod 3"
  have o: "?ox < 3" "?oy < 3" by simp_all
  have t: "getTile s (coordinate m) = None"
    using assms by (auto simp: doMove_def Let_def split: option.splits if_splits)
  note g = getBit_setBit_same [OF o]
  show ?thesis
  proof (cases "player m")
    case PlayerX
    then show ?thesis
      using assms t g
      by (auto simp: doMove_def Let_def getTile_def readBitboard_writeBitboard_same
          split: option.splits if_splits)
  next
    case PlayerO
    then show ?thesis
      using assms t g
      by (auto simp: doMove_def Let_def getTile_def readBitboard_writeBitboard_same
          split: option.splits if_splits)
  qed
qed

text \<open>
  Claim C10: \<^verbatim>\<open>doMove\<close> never reads the \<^verbatim>\<open>complete\<close> flag. In a state whose flag is set, a
  move on an empty cell that respects the active subgrid is accepted: nothing is thrown,
  the move is appended to the history and its cell is marked, so the state changes. Such a
  move is kept out only by \<^verbatim>\<open>legalMoves()\<close>, which is empty in that state.
\<close>

theorem doMove_ignores_complete:
  assumes "complete s" and "getTile s (coordinate m) = None"
    and "activeSubgrid s = Any \<or>
         activeSubgrid s = Subgrid (fst (coordinate m) div 3, snd (coordinate m) div 3)"
  shows "thrown (doMove s m) = None \<and>
         moves (after (doMove s m)) = moves s @ [m] \<and>
         getTile (after (doMove s m)) (coordinate m) = Some (player m) \<and>
         after (doMove s m) \<noteq> s \<and>
         legalMoves s = []"
proof -
  have 1: "thrown (doMove s m) = None"
    using doMove_accepts [OF assms(2,3)] by simp
  have 2: "moves (after (doMove s m)) = moves s @ [m]"
    using assms(2,3) by (auto simp: doMove_def Let_def coordinatesEqual_def)
  then have 3: "after (doMove s m) \<noteq> s"
    by auto
  show ?thesis
    using 1 2 3 getTile_doMove [OF 1] assms(1) by (simp add: legalMoves_def)
qed

theorem doMove_ignores_complete_witness:
  "complete finishedState \<and> getTile finishedState (1, 6) = None \<and>
   activeSubgrid finishedState = Subgrid (0, 2) \<and>
   thrown (doMove finishedState (mv 1 6 PlayerO)) = None \<and>
   getTile (after (doMove finishedState (mv 1 6 PlayerO))) (1, 6) = Some PlayerO \<and>
   moves (after (doMove finishedState (mv 1 6 PlayerO))) = shortGame @ [mv 1 6 PlayerO] \<and>
   legalMoves finishedState = []"
proof -
  have 1: "complete finishedState"
    by (simp add: finishedState_value)
  have 2: "getTile finishedState (coordinate (mv 1 6 PlayerO)) = None"
    by (simp add: finishedState_value mv_def getTile_def readBitboard_def getBit_def)
  have 3: "activeSubgrid finishedState =
           Subgrid (fst (coordinate (mv 1 6 PlayerO)) div 3, snd (coordinate (mv 1 6 PlayerO)) div 3)"
    by (simp add: finishedState_value mv_def)
  have 4: "moves finishedState = shortGame"
    by (simp add: finishedState_value)
  show ?thesis
    using 1 2 3 4 doMove_ignores_complete [OF 1 2 disjI2 [OF 3]] by (simp add: mv_def)
qed

subsection \<open>The invariant of the reachable states\<close>

lemma wholeBoardStep_cong:
  assumes "aSubgridBitboard s = aSubgridBitboard t" "bSubgridBitboard s = bSubgridBitboard t"
  shows "wholeBoardStep s = wholeBoardStep t"
proof (intro ext)
  fix acc :: "bitboard \<times> bitboard \<times> bitboard" and c :: Coordinate
  obtain a b n x y where "acc = (a, b, n)" "c = (x, y)"
    by (cases acc, cases c) auto
  then show "wholeBoardStep s acc c = wholeBoardStep t acc c"
    using checkWinSubgrid_cong [OF assms] by simp
qed

lemma checkWinWholeBoard_cong:
  assumes "aSubgridBitboard s = aSubgridBitboard t" "bSubgridBitboard s = bSubgridBitboard t"
  shows "checkWinWholeBoard s = checkWinWholeBoard t"
  unfolding checkWinWholeBoard_def wholeBoardStep_cong [OF assms] ..

text \<open>The fields of the state a successful move leaves.\<close>

lemma doMove_fields:
  assumes "thrown (doMove s m) = None"
  defines "s' \<equiv> after (doMove s m)"
    and "idx \<equiv> fst (coordinate m) div 3 + snd (coordinate m) div 3 * 3"
    and "ox \<equiv> fst (coordinate m) mod 3" and "oy \<equiv> snd (coordinate m) mod 3"
  shows "aSubgridBitboard s' =
           (if player m = PlayerX
            then writeBitboard (aSubgridBitboard s) idx (setBit (readBitboard (aSubgridBitboard s) idx) ox oy)
            else aSubgridBitboard s)"
    and "bSubgridBitboard s' =
           (if player m = PlayerX then bSubgridBitboard s
            else writeBitboard (bSubgridBitboard s) idx (setBit (readBitboard (bSubgridBitboard s) idx) ox oy))"
    and "activeSubgrid s' =
           (if checkWinSubgrid s' (ox, oy) \<noteq> OutcomeNone then Any else Subgrid (ox, oy))"
    and "playerToMove s' = otherPlayer (player m)"
    and "complete s' \<longleftrightarrow> checkWinWholeBoard s' \<noteq> OutcomeNone"
    and "moves s' = moves s @ [m]"
proof -
  have ok: "getTile s (coordinate m) = None"
    "\<not> (activeSubgrid s \<noteq> Any \<and>
        \<not> (case activeSubgrid s of
             Subgrid a \<Rightarrow> coordinatesEqual a (fst (coordinate m) div 3, snd (coordinate m) div 3)
           | Any \<Rightarrow> True))"
    using assms(1) by (auto simp: doMove_def Let_def split: option.splits if_splits)
  define s3 where "s3 =
     (if player m = PlayerX
      then s\<lparr> moves := moves s @ [m],
              aSubgridBitboard := writeBitboard (aSubgridBitboard s) idx (setBit (readBitboard (aSubgridBitboard s) idx) ox oy),
              activeSubgrid := Subgrid (ox, oy) \<rparr>
      else s\<lparr> moves := moves s @ [m],
              bSubgridBitboard := writeBitboard (bSubgridBitboard s) idx (setBit (readBitboard (bSubgridBitboard s) idx) ox oy),
              activeSubgrid := Subgrid (ox, oy) \<rparr>)"
  define s5 where "s5 =
     (if checkWinSubgrid s3 (ox, oy) \<noteq> OutcomeNone then s3\<lparr> activeSubgrid := Any \<rparr> else s3)
       \<lparr> playerToMove := otherPlayer (player m) \<rparr>"
  have "doMove s m =
          \<lparr> thrown = None, after = s5\<lparr> complete := (checkWinWholeBoard s5 \<noteq> OutcomeNone) \<rparr>,
            hookCalls = [m] \<rparr>"
    unfolding s5_def s3_def idx_def ox_def oy_def
    by (simp only: doMove_def Let_def ok(1) option.case if_not_P [OF ok(2)])
      (simp cong: if_cong)
  then have s': "s' = s5\<lparr> complete := (checkWinWholeBoard s5 \<noteq> OutcomeNone) \<rparr>"
    by (simp add: s'_def)
  have bb5: "aSubgridBitboard s5 = aSubgridBitboard s3" "bSubgridBitboard s5 = bSubgridBitboard s3"
    by (simp_all add: s5_def)
  have bb': "aSubgridBitboard s' = aSubgridBitboard s3" "bSubgridBitboard s' = bSubgridBitboard s3"
    by (simp_all add: s' bb5)
  show "aSubgridBitboard s' =
           (if player m = PlayerX
            then writeBitboard (aSubgridBitboard s) idx (setBit (readBitboard (aSubgridBitboard s) idx) ox oy)
            else aSubgridBitboard s)"
    by (simp add: bb' s3_def)
  show "bSubgridBitboard s' =
           (if player m = PlayerX then bSubgridBitboard s
            else writeBitboard (bSubgridBitboard s) idx (setBit (readBitboard (bSubgridBitboard s) idx) ox oy))"
    by (simp add: bb' s3_def)
  have "activeSubgrid s' =
           (if checkWinSubgrid s3 (ox, oy) \<noteq> OutcomeNone then Any else Subgrid (ox, oy))"
    by (simp add: s' s5_def s3_def)
  then show "activeSubgrid s' =
           (if checkWinSubgrid s' (ox, oy) \<noteq> OutcomeNone then Any else Subgrid (ox, oy))"
    using checkWinSubgrid_cong [OF bb'] by simp
  show "playerToMove s' = otherPlayer (player m)"
    by (simp add: s' s5_def)
  have "complete s' \<longleftrightarrow> checkWinWholeBoard s5 \<noteq> OutcomeNone"
    by (simp add: s')
  then show "complete s' \<longleftrightarrow> checkWinWholeBoard s' \<noteq> OutcomeNone"
    using checkWinWholeBoard_cong [of s' s5] bb' bb5 by simp
  show "moves s' = moves s @ [m]"
    by (simp add: s' s5_def s3_def)
qed


lemma nineBit_setBit: "nineBit w \<Longrightarrow> x < 3 \<Longrightarrow> y < 3 \<Longrightarrow> nineBit (setBit w x y)"
  by (auto simp: nineBit_def bit_setBit)

lemma nineBit_readBitboard:
  assumes "\<forall>w \<in> set bs. nineBit w"
  shows "nineBit (readBitboard bs i)"
proof (cases "i < length bs")
  case True
  then have "bs ! i \<in> set bs" by simp
  with assms True show ?thesis by (simp add: readBitboard_def)
next
  case False
  then show ?thesis by (simp add: readBitboard_def nineBit_def)
qed

lemma wellFormed_init: "wellFormed initialGameState"
proof -
  have "checkWinWholeBoard initialGameState = OutcomeNone"
    by code_simp
  moreover have "nineBit 0"
    by (simp add: nineBit_def)
  ultimately show ?thesis
    by (simp add: wellFormed_def initialGameState_def)
qed

lemma wellFormed_doMove:
  assumes wf: "wellFormed s" and m: "m \<in> set (legalMoves s)"
  shows "wellFormed (after (doMove s m))"
proof -
  let ?s' = "after (doMove s m)"
  let ?idx = "fst (coordinate m) div 3 + snd (coordinate m) div 3 * 3"
  let ?ox = "fst (coordinate m) mod 3" and ?oy = "snd (coordinate m) mod 3"
  from m obtain x y ox oy where
    b: "x < 3" "y < 3" "ox < 3" "oy < 3"
    and mm: "m = \<lparr> coordinate = (x * 3 + ox, y * 3 + oy), player = playerToMove s,
                   currentSubgrid = (x, y) \<rparr>"
    unfolding legalMoves_iff legalMovesSubgrid_iff by blast
  have idx: "?idx = x + y * 3" "?idx < 9"
    using b mm by simp_all
  have o: "?ox < 3" "?oy < 3"
    by simp_all
  have ok: "thrown (doMove s m) = None"
    using legalMoves_not_thrown [OF m] by simp
  note f = doMove_fields [OF ok]
  have len: "length (aSubgridBitboard s) = 9" "length (bSubgridBitboard s) = 9"
    using wf by (simp_all add: wellFormed_def)
  have nb: "\<forall>w \<in> set (aSubgridBitboard s). nineBit w" "\<forall>w \<in> set (bSubgridBitboard s). nineBit w"
    using wf by (simp_all add: wellFormed_def)
  have w: "length (writeBitboard bs ?idx (setBit (readBitboard bs ?idx) ?ox ?oy)) = 9 \<and>
           (\<forall>w \<in> set (writeBitboard bs ?idx (setBit (readBitboard bs ?idx) ?ox ?oy)). nineBit w)"
    if "length bs = 9" "\<forall>w \<in> set bs. nineBit w" for bs
  proof -
    have "nineBit (setBit (readBitboard bs ?idx) ?ox ?oy)"
      using that(2) o by (intro nineBit_setBit nineBit_readBitboard)
    then show ?thesis
      using that idx(2) by (auto simp: writeBitboard_def dest!: set_update_subset_insert [THEN subsetD])
  qed
  have 1: "length (aSubgridBitboard ?s') = 9 \<and> (\<forall>w \<in> set (aSubgridBitboard ?s'). nineBit w)"
    unfolding f(1) using w [OF len(1) nb(1)] len(1) nb(1) by simp
  have 2: "length (bSubgridBitboard ?s') = 9 \<and> (\<forall>w \<in> set (bSubgridBitboard ?s'). nineBit w)"
    unfolding f(2) using w [OF len(2) nb(2)] len(2) nb(2) by simp
  have 3: "\<forall>c. activeSubgrid ?s' = Subgrid c \<longrightarrow>
             fst c < 3 \<and> snd c < 3 \<and> checkWinSubgrid ?s' c = OutcomeNone"
    using f(3) o by (auto split: if_splits)
  show ?thesis
    unfolding wellFormed_def using 1 2 3 f(5) by simp
qed

lemma reachable_wellFormed: "reachable s \<Longrightarrow> wellFormed s"
  by (induction rule: reachable.induct) (simp_all add: wellFormed_init wellFormed_doMove)

lemma free_cell:
  assumes "bitboardGridResult xb yb = OutcomeNone" "nineBit xb" "nineBit yb"
  shows "\<exists>ox<3. \<exists>oy<3. getBit xb ox oy = 0 \<and> getBit yb ox oy = 0"
proof -
  have "xb OR yb \<noteq> 511"
    using assms(1) by (auto simp: bitboardGridResult_def split: if_splits)
  then obtain i where i: "i < 32" "(bit xb i \<or> bit yb i) \<noteq> (i < 9)"
    by (auto simp: eq_511_iff bit_or_iff)
  have "i < 9"
    using i(2) assms(2,3) by (auto simp: nineBit_def)
  with i(2) have free: "\<not> bit xb i" "\<not> bit yb i"
    by auto
  have d: "i div 3 < 3"
    using \<open>i < 9\<close> by presburger
  have "i mod 3 + i div 3 * 3 = i"
    by simp
  then have "getBit xb (i mod 3) (i div 3) = 0 \<and> getBit yb (i mod 3) (i div 3) = 0"
    using free getBit_iff [of "i mod 3" "i div 3" xb] getBit_iff [of "i mod 3" "i div 3" yb] d
    by simp
  moreover have "i mod 3 < 3"
    by simp
  ultimately show ?thesis
    using d by blast
qed

lemma legalMoves_nonempty:
  assumes wf: "wellFormed s" and nc: "\<not> complete s"
  shows "legalMoves s \<noteq> []"
proof -
  have in_progress: "\<exists>x<3. \<exists>y<3. checkWinSubgrid s (x, y) = OutcomeNone \<and>
                       (activeSubgrid s = Any \<or> activeSubgrid s = Subgrid (x, y))"
  proof (cases "activeSubgrid s")
    case Any
    have "checkWinWholeBoard s = OutcomeNone"
      using wf nc by (simp add: wellFormed_def)
    then have "\<not> allSubgridsDecided s"
      by (rule checkWinWholeBoard_none_undecided)
    then obtain x y where "x < 3" "y < 3" "checkWinSubgrid s (x, y) = OutcomeNone"
      unfolding allSubgridsDecided_def by (auto simp: grid3_iff)
    with Any show ?thesis by blast
  next
    case (Subgrid c)
    with wf have "fst c < 3" "snd c < 3" "checkWinSubgrid s c = OutcomeNone"
      by (simp_all add: wellFormed_def)
    moreover have "c = (fst c, snd c)"
      by simp
    ultimately show ?thesis
      using Subgrid by metis
  qed
  then obtain x y where xy: "x < 3" "y < 3" "checkWinSubgrid s (x, y) = OutcomeNone"
    "activeSubgrid s = Any \<or> activeSubgrid s = Subgrid (x, y)"
    by blast
  have "x + y * 3 < 9"
    using xy(1,2) by simp
  have nb: "nineBit (readBitboard (aSubgridBitboard s) (x + y * 3))"
    "nineBit (readBitboard (bSubgridBitboard s) (x + y * 3))"
    using wf by (simp_all add: wellFormed_def nineBit_readBitboard)
  have "bitboardGridResult (readBitboard (aSubgridBitboard s) (x + y * 3))
          (readBitboard (bSubgridBitboard s) (x + y * 3)) = OutcomeNone"
    using xy(3) by (simp add: checkWinSubgrid_def Let_def)
  from free_cell [OF this nb] obtain ox oy where
    "ox < 3" "oy < 3"
    "getBit (readBitboard (aSubgridBitboard s) (x + y * 3)) ox oy = 0"
    "getBit (readBitboard (bSubgridBitboard s) (x + y * 3)) ox oy = 0"
    by blast
  then have "\<lparr> coordinate = (x * 3 + ox, y * 3 + oy), player = playerToMove s,
              currentSubgrid = (x, y) \<rparr> \<in> set (legalMoves s)"
    unfolding legalMoves_iff legalMovesSubgrid_iff using nc xy by blast
  then show ?thesis by auto
qed

text \<open>
  Claim C5: in every reachable game state, \<^verbatim>\<open>legalMoves()\<close> is empty if and only if the
  \<^verbatim>\<open>complete\<close> flag is set, and the flag is set if and only if the board outcome is not
  in progress.
\<close>

theorem legalMoves_empty_iff_complete:
  assumes "reachable s"
  shows "(legalMoves s = [] \<longleftrightarrow> complete s) \<and>
         (complete s \<longleftrightarrow> checkWinWholeBoard s \<noteq> OutcomeNone)"
proof -
  have wf: "wellFormed s"
    using assms by (rule reachable_wellFormed)
  have "legalMoves s = []" if "complete s"
    using that by (simp add: legalMoves_def)
  moreover have "legalMoves s \<noteq> []" if "\<not> complete s"
    using wf that by (rule legalMoves_nonempty)
  moreover have "complete s \<longleftrightarrow> checkWinWholeBoard s \<noteq> OutcomeNone"
    using wf by (simp add: wellFormed_def)
  ultimately show ?thesis by blast
qed


lemma reachable_playAll: "reachable s \<Longrightarrow> legalRun s ms \<Longrightarrow> reachable (playAll s ms)"
  by (induction ms arbitrary: s) (auto intro: reachable_move)

lemma shortGame_legal: "legalRun initialGameState shortGame"
  by code_simp

lemma reachable_finishedState: "reachable finishedState"
  unfolding finishedState_def
  using reachable_init shortGame_legal by (rule reachable_playAll)

theorem legalMoves_empty_iff_complete_witness:
  "reachable finishedState \<and> complete finishedState \<and> legalMoves finishedState = [] \<and>
   checkWinWholeBoard finishedState = Owner PlayerX \<and>
   reachable initialGameState \<and> \<not> complete initialGameState \<and>
   legalMoves initialGameState \<noteq> [] \<and>
   checkWinWholeBoard initialGameState = OutcomeNone"
proof -
  have 1: "checkWinWholeBoard finishedState = Owner PlayerX"
    unfolding finishedState_value by code_simp
  have 2: "\<not> complete initialGameState"
    by (simp add: initialGameState_def)
  show ?thesis
    using 1 2 reachable_finishedState reachable_init
      legalMoves_empty_iff_complete [OF reachable_finishedState]
      legalMoves_empty_iff_complete [OF reachable_init]
    by simp
qed

subsection \<open>Undoing a move\<close>

lemma unsetBit_setBit:
  assumes "x < 3" "y < 3" "getBit b x y = 0"
  shows "unsetBit (setBit b x y) x y = b"
proof -
  have "\<not> bit b (x + y * 3)"
    using assms getBit_iff [of x y b] by simp
  then show ?thesis
    using assms(1,2) by (intro bit_eqI) (auto simp: bit_unsetBit bit_setBit)
qed

lemma getBit_unsetBit_same: "x < 3 \<Longrightarrow> y < 3 \<Longrightarrow> getBit (unsetBit b x y) x y = 0"
  using getBit_iff [of x y "unsetBit b x y"] by (simp add: bit_unsetBit)

lemma writeBitboard_restore:
  assumes "idx < length bs"
  shows "writeBitboard (writeBitboard bs idx v) idx (bs ! idx) = bs"
  using assms by (simp add: writeBitboard_def)

lemma undoMove_fields:
  "undoMove s m = Inr
     (s\<lparr> moves := butlast (moves s),
         aSubgridBitboard :=
           (if player m = PlayerX
            then writeBitboard (aSubgridBitboard s)
                   (fst (coordinate m) div 3 + snd (coordinate m) div 3 * 3)
                   (unsetBit (readBitboard (aSubgridBitboard s)
                                (fst (coordinate m) div 3 + snd (coordinate m) div 3 * 3))
                      (fst (coordinate m) mod 3) (snd (coordinate m) mod 3))
            else aSubgridBitboard s),
         bSubgridBitboard :=
           (if player m = PlayerX then bSubgridBitboard s
            else writeBitboard (bSubgridBitboard s)
                   (fst (coordinate m) div 3 + snd (coordinate m) div 3 * 3)
                   (unsetBit (readBitboard (bSubgridBitboard s)
                                (fst (coordinate m) div 3 + snd (coordinate m) div 3 * 3))
                      (fst (coordinate m) mod 3) (snd (coordinate m) mod 3))),
         activeSubgrid := Subgrid (currentSubgrid m),
         playerToMove := player m,
         complete := False \<rparr>)"
  by (simp add: undoMove_def Let_def)

text \<open>
  What undoing a legal move restores, in a state that satisfies the invariant: the
  bitboards, the player to move, the flag and the history, bit for bit; the active subgrid
  becomes the subgrid the move was played in.
\<close>

lemma undoMove_doMove:
  assumes wf: "wellFormed s" and m: "m \<in> set (legalMoves s)"
  shows "undoMove (after (doMove s m)) m = Inr (s\<lparr> activeSubgrid := Subgrid (currentSubgrid m) \<rparr>)"
proof -
  let ?s' = "after (doMove s m)"
  let ?idx = "fst (coordinate m) div 3 + snd (coordinate m) div 3 * 3"
  let ?ox = "fst (coordinate m) mod 3" and ?oy = "snd (coordinate m) mod 3"
  from m obtain x y ox oy where
    b: "x < 3" "y < 3" "ox < 3" "oy < 3"
    and ga: "getBit (readBitboard (aSubgridBitboard s) (x + y * 3)) ox oy = 0"
    and gb: "getBit (readBitboard (bSubgridBitboard s) (x + y * 3)) ox oy = 0"
    and mm: "m = \<lparr> coordinate = (x * 3 + ox, y * 3 + oy), player = playerToMove s,
                   currentSubgrid = (x, y) \<rparr>"
    unfolding legalMoves_iff legalMovesSubgrid_iff by blast
  have c: "?idx = x + y * 3" "?ox = ox" "?oy = oy"
    using b mm by simp_all
  have idx: "?idx < 9"
    using b c by simp
  have nc: "\<not> complete s"
    using m by (auto simp: legalMoves_def split: if_splits)
  have pl: "player m = playerToMove s"
    using mm by simp
  have len: "length (aSubgridBitboard s) = 9" "length (bSubgridBitboard s) = 9"
    using wf by (simp_all add: wellFormed_def)
  note f = doMove_fields [OF legalMoves_not_thrown [OF m]]
  have restore: "writeBitboard (writeBitboard bs ?idx (setBit (readBitboard bs ?idx) ?ox ?oy)) ?idx
                (unsetBit (readBitboard (writeBitboard bs ?idx (setBit (readBitboard bs ?idx) ?ox ?oy)) ?idx) ?ox ?oy) = bs"
    if "length bs = 9" "getBit (readBitboard bs ?idx) ?ox ?oy = 0" for bs
  proof -
    have "unsetBit (setBit (readBitboard bs ?idx) ?ox ?oy) ?ox ?oy = readBitboard bs ?idx"
      using that(2) by (intro unsetBit_setBit) simp_all
    moreover have "readBitboard bs ?idx = bs ! ?idx"
      using that(1) idx by (simp add: readBitboard_def)
    ultimately show ?thesis
      using that(1) idx by (simp add: readBitboard_writeBitboard_same writeBitboard_restore)
  qed
  have a: "aSubgridBitboard s = (if player m = PlayerX
            then writeBitboard (aSubgridBitboard ?s') ?idx
                   (unsetBit (readBitboard (aSubgridBitboard ?s') ?idx) ?ox ?oy)
            else aSubgridBitboard ?s')"
    unfolding f(1) using restore [OF len(1)] ga c by simp
  have bb: "bSubgridBitboard s = (if player m = PlayerX then bSubgridBitboard ?s'
            else writeBitboard (bSubgridBitboard ?s') ?idx
                   (unsetBit (readBitboard (bSubgridBitboard ?s') ?idx) ?ox ?oy))"
    unfolding f(2) using restore [OF len(2)] gb c by simp
  have mo: "butlast (moves ?s') = moves s"
    by (simp add: f(6))
  have more: "GameState.more ?s' = GameState.more s"
    by simp
  show ?thesis
    unfolding undoMove_fields
    by (rule arg_cong [where f = Inr], rule GameState.equality)
      (use a bb mo pl nc in \<open>auto split: if_splits\<close>)
qed

text \<open>
  Claim C1 at the initial state, where the active subgrid is \<^verbatim>\<open>'any'\<close>: the centre move
  is legal there, and \<^verbatim>\<open>doMove\<close> followed by \<^verbatim>\<open>undoMove\<close> gives the initial state back
  except for the active subgrid, which is the subgrid \<open>(1, 1)\<close> of the move and no longer
  \<^verbatim>\<open>'any'\<close>: \<^verbatim>\<open>legalMovesSubgrid\<close> records in \<^verbatim>\<open>currentSubgrid\<close> the subgrid of the move, not
  the active subgrid in effect.
\<close>

theorem undo_after_do_initial:
  "centreMove \<in> set (legalMoves initialGameState) \<and>
   activeSubgrid initialGameState = Any \<and>
   undoMove (after (doMove initialGameState centreMove)) centreMove =
     Inr (initialGameState\<lparr> activeSubgrid := Subgrid (1, 1) \<rparr>) \<and>
   undoMove (after (doMove initialGameState centreMove)) centreMove \<noteq> Inr initialGameState"
  by code_simp

text \<open>
  Claim C2, as stated: on a state with an empty move history \<^verbatim>\<open>undoMove\<close> fails with
  \<open>IllegalUndo\<close>. On the initial state, whose history is empty, it returns normally and
  changes the active subgrid.
\<close>

theorem undoMove_empty_history_counterexample:
  "moves initialGameState = [] \<and>
   undoMove initialGameState centreMove = Inr (initialGameState\<lparr> activeSubgrid := Subgrid (1, 1) \<rparr>)"
  by code_simp

text \<open>
  Claim C2, amended: on every state with an empty move history, \<^verbatim>\<open>undoMove\<close> with any
  move returns normally: the history stays empty, the active subgrid becomes the move's
  \<^verbatim>\<open>currentSubgrid\<close>, the player to move becomes the move's player, the flag is cleared,
  and the move's cell no longer belongs to the move's player.
\<close>

theorem undoMove_empty_history:
  assumes "moves s = []"
  shows "\<exists>s'. undoMove s m = Inr s' \<and> moves s' = [] \<and>
           activeSubgrid s' = Subgrid (currentSubgrid m) \<and>
           playerToMove s' = player m \<and> \<not> complete s' \<and>
           getTile s' (coordinate m) \<noteq> Some (player m)"
proof -
  let ?ox = "fst (coordinate m) mod 3" and ?oy = "snd (coordinate m) mod 3"
  have z: "getBit (unsetBit b ?ox ?oy) ?ox ?oy = 0" for b
    by (rule getBit_unsetBit_same) simp_all
  show ?thesis
    unfolding undoMove_fields using assms z
    by (cases "player m")
      (auto simp: getTile_def Let_def readBitboard_writeBitboard_same)
qed

theorem undoMove_empty_history_witness:
  "moves initialGameState = [] \<and>
   (\<exists>s'. undoMove initialGameState centreMove = Inr s' \<and> moves s' = [] \<and>
          activeSubgrid s' = Subgrid (1, 1) \<and> playerToMove s' = PlayerX \<and> \<not> complete s' \<and>
          getTile s' (4, 4) \<noteq> Some PlayerX)"
proof -
  have "moves initialGameState = []"
    by (simp add: initialGameState_def)
  from this undoMove_empty_history [OF this, of centreMove] show ?thesis
    by (simp add: centreMove_def)
qed

section \<open>Properties of the search engine\<close>

subsection \<open>A search of one round\<close>

lemma afterSixteen_value: "afterSixteen =
   \<lparr> aSubgridBitboard = [448, 20, 448, 0, 0, 0, 0, 0, 0],
     bSubgridBitboard = [0, 0, 1, 0, 2, 0, 5, 6, 5],
     activeSubgrid = Any,
     playerToMove = PlayerX,
     complete = False,
     moves = take 16 shortGame \<rparr>"
  by code_simp

text \<open>
  From a new engine and the state \<open>afterSixteen\<close>, one round with the draws at 18: the
  root is made with its 54 plays unexpanded, selection stops at the root, expansion makes
  the child of the winning move \<open>(3, 2)\<close>, whose state is won by the first player, and
  backpropagation counts one visit at the child and one at the root.
\<close>

lemma oneRound_summary:
  "(case oneRound of
      Some (Inr (mc, k)) \<Rightarrow>
        k = 1 \<and> length (heap mc) = 2 \<and>
        map_of (nodes mc) (hash afterSixteen) = Some 0 \<and>
        parent (heap mc ! 0) = None \<and> \<not> isLeaf (heap mc ! 0) \<and>
        childNode (heap mc ! 0) (mv 3 2 PlayerX) = Inr 1 \<and>
        n_plays (heap mc ! 0) = 1 \<and> n_wins (heap mc ! 0) = 0 \<and>
        n_plays (heap mc ! 1) = 1 \<and> n_wins (heap mc ! 1) = 1 \<and>
        fst (bestPlay mc afterSixteen) = Inl ChildNotExpanded
    | _ \<Rightarrow> False)"
  unfolding oneRound_def afterSixteen_value by code_simp

lemma oneRoundTree_facts:
  "oneRound = Some (Inr (oneRoundTree, 1))"
  "length (heap oneRoundTree) = 2"
  "map_of (nodes oneRoundTree) (hash afterSixteen) = Some 0"
  "parent (heap oneRoundTree ! 0) = None"
  "\<not> isLeaf (heap oneRoundTree ! 0)"
  "childNode (heap oneRoundTree ! 0) (mv 3 2 PlayerX) = Inr 1"
  "n_plays (heap oneRoundTree ! 0) = 1"
  "n_wins (heap oneRoundTree ! 0) = 0"
  "n_plays (heap oneRoundTree ! 1) = 1"
  "n_wins (heap oneRoundTree ! 1) = 1"
  "fst (bestPlay oneRoundTree afterSixteen) = Inl ChildNotExpanded"
proof -
  obtain mc k where r: "oneRound = Some (Inr (mc, k))"
  proof (cases oneRound)
    case None
    from oneRound_summary [unfolded None] show ?thesis by simp
  next
    case (Some x)
    show ?thesis
    proof (cases x)
      case (Inl e)
      from oneRound_summary [unfolded Some Inl] show ?thesis by simp
    next
      case (Inr mk)
      with Some that show ?thesis by (cases mk) auto
    qed
  qed
  have t: "oneRoundTree = mc"
    by (simp add: oneRoundTree_def r)
  note f = oneRound_summary [unfolded r, simplified, folded t]
  show "oneRound = Some (Inr (oneRoundTree, 1))"
    using f r t by simp
  show "length (heap oneRoundTree) = 2"
    "map_of (nodes oneRoundTree) (hash afterSixteen) = Some 0"
    "parent (heap oneRoundTree ! 0) = None"
    "\<not> isLeaf (heap oneRoundTree ! 0)"
    "childNode (heap oneRoundTree ! 0) (mv 3 2 PlayerX) = Inr 1"
    "n_plays (heap oneRoundTree ! 0) = 1"
    "n_wins (heap oneRoundTree ! 0) = 0"
    "n_plays (heap oneRoundTree ! 1) = 1"
    "n_wins (heap oneRoundTree ! 1) = 1"
    "fst (bestPlay oneRoundTree afterSixteen) = Inl ChildNotExpanded"
    using f by simp_all
qed

subsection \<open>The best play\<close>

text \<open>
  Claim C3 on the tree of the one-round search: the root of \<open>afterSixteen\<close> has an
  expanded child, for the move \<open>(3, 2)\<close>, with one visit, and 53 unexpanded ones.
  \<^verbatim>\<open>bestPlay\<close> does not return that move: its loop calls \<^verbatim>\<open>childNode\<close> on every play, and
  \<^verbatim>\<open>childNode\<close> throws \<^verbatim>\<open>Child not expanded\<close> on the first unexpanded one.
\<close>

theorem bestPlay_unexpanded_child:
  "oneRound = Some (Inr (oneRoundTree, 1)) \<and>
   map_of (nodes oneRoundTree) (hash afterSixteen) = Some 0 \<and>
   childNode (heap oneRoundTree ! 0) (mv 3 2 PlayerX) = Inr 1 \<and>
   n_plays (heap oneRoundTree ! 1) = 1 \<and>
   fst (bestPlay oneRoundTree afterSixteen) = Inl ChildNotExpanded"
  using oneRoundTree_facts by simp

subsection \<open>The counters of the tree\<close>

text \<open>
  Claim C4, as stated: after a completed \<^verbatim>\<open>runSearch\<close> from a fresh root, the visits of
  every node that is not a leaf are at least one more than the visits of its most-visited
  child. After the one-round search the root, which is not a leaf, and its only expanded
  child both have one visit.
\<close>

theorem visits_counterexample:
  "oneRound = Some (Inr (oneRoundTree, 1)) \<and>
   \<not> isLeaf (heap oneRoundTree ! 0) \<and>
   childNode (heap oneRoundTree ! 0) (mv 3 2 PlayerX) = Inr 1 \<and>
   \<not> (n_plays (heap oneRoundTree ! 0) \<ge> 1 + n_plays (heap oneRoundTree ! 1))"
  using oneRoundTree_facts by simp

lemma set_update_subset: "set (AList.update k v al) \<subseteq> insert (k, v) (set al)"
  by (induction al) auto

lemma newNode_children_unexpanded:
  "(key, (pl, c)) \<in> set (foldl (\<lambda>cs p. AList.update (moveHash p) (p, None) cs) acc ps) \<Longrightarrow>
   (key, (pl, c)) \<in> set acc \<or> c = None"
proof (induction ps arbitrary: acc)
  case Nil
  then show ?case by simp
next
  case (Cons p ps)
  from Cons.IH [OF Cons.prems [simplified]]
  show ?case
    using set_update_subset [of "moveHash p" "(p, None)" acc] by auto
qed

lemma newMonteCarloNode_fields [simp]:
  "parent (newMonteCarloNode pa pl s ps) = pa"
  "n_plays (newMonteCarloNode pa pl s ps) = 0"
  "n_wins (newMonteCarloNode pa pl s ps) = 0"
  by (simp_all add: newMonteCarloNode_def)

lemma newMonteCarloNode_children:
  "(key, (pl', c)) \<in> set (children (newMonteCarloNode pa pl s ps)) \<Longrightarrow> c = None"
  using newNode_children_unexpanded [of key pl' c "[]" ps] by (simp add: newMonteCarloNode_def)

lemma onPath_parent:
  "onPath h v a \<Longrightarrow> parent (h ! a) = Some p \<Longrightarrow> onPath h v p"
  by (induction rule: onPath.induct) (auto intro: onPath.intros)

lemma onPath_le:
  assumes "\<forall>a<length h. \<forall>p. parent (h ! a) = Some p \<longrightarrow> p < a"
  shows "onPath h v b \<Longrightarrow> v < length h \<Longrightarrow> b \<le> v"
proof (induction rule: onPath.induct)
  case (onPath_self v)
  then show ?case by simp
next
  case (onPath_step v p b)
  with assms have "p < v" by blast
  with onPath_step show ?case by simp
qed

lemma onPath_cong:
  assumes "\<And>a. parent (h' ! a) = parent (h ! a)"
  shows "onPath h' v b \<longleftrightarrow> onPath h v b"
proof
  show "onPath h' v b \<Longrightarrow> onPath h v b"
    by (induction rule: onPath.induct) (auto intro: onPath.intros simp: assms)
  show "onPath h v b \<Longrightarrow> onPath h' v b"
    by (induction rule: onPath.induct) (auto intro: onPath.intros simp: assms [symmetric])
qed

lemma onPath_unfold:
  "onPath h v b \<longleftrightarrow> b = v \<or> (\<exists>p. parent (h ! v) = Some p \<and> onPath h p b)"
  by (auto intro: onPath.intros elim: onPath.cases)


lemma bump_fields [simp]:
  "parent (bump node w) = parent node"
  "children (bump node w) = children node"
  "n_plays (bump node w) = n_plays node + 1"
  "n_wins node \<le> n_wins (bump node w)"
  "n_wins (bump node w) \<le> Suc (n_wins node)"
  by (simp_all add: bump_def)

lemma backpropagate_unfold:
  "backpropagate h (Some a) w = backpropagate (h[a := bump (h ! a) w]) (parent (h ! a)) w"
  by (subst backpropagate.simps) (simp add: Let_def bump_def)

lemma backpropagate_None: "backpropagate h None w = Some h"
  by (subst backpropagate.simps) simp

text \<open>
  On a store whose parent references point to earlier nodes, \<^verbatim>\<open>backpropagate\<close> returns,
  and it has added one visit, and at most one win, to exactly the nodes on the way from
  the given node to the root.
\<close>

lemma backpropagate_result:
  assumes "\<forall>a<length h. \<forall>p. parent (h ! a) = Some p \<longrightarrow> p < a" and "v < length h"
  shows "\<exists>h'. backpropagate h (Some v) w = Some h' \<and> length h' = length h \<and>
           (\<forall>b. parent (h' ! b) = parent (h ! b) \<and> children (h' ! b) = children (h ! b) \<and>
                n_plays (h' ! b) = n_plays (h ! b) + (if onPath h v b then 1 else 0) \<and>
                n_wins (h ! b) \<le> n_wins (h' ! b) \<and>
                n_wins (h' ! b) \<le> n_wins (h ! b) + (if onPath h v b then 1 else 0))"
  using assms
proof (induction v arbitrary: h rule: less_induct)
  case (less v)
  let ?h1 = "h[v := bump (h ! v) w]"
  have h1: "?h1 ! b = (if b = v then bump (h ! v) w else h ! b)" for b
    using less.prems(2) by (simp add: nth_list_update)
  have par1: "parent (?h1 ! b) = parent (h ! b)" for b
    by (simp add: h1)
  show ?case
  proof (cases "parent (h ! v)")
    case None
    have "backpropagate h (Some v) w = Some ?h1"
      by (subst backpropagate_unfold) (simp only: None backpropagate_None)
    moreover have "onPath h v b \<longleftrightarrow> b = v" for b
      using None by (subst onPath_unfold) simp
    ultimately show ?thesis
      by (simp add: h1)
  next
    case (Some p)
    then have pv: "p < v"
      using less.prems by blast
    have sh1: "\<forall>a<length ?h1. \<forall>q. parent (?h1 ! a) = Some q \<longrightarrow> q < a"
      using less.prems(1) by (simp add: par1)
    have p1: "p < length ?h1"
      using pv less.prems(2) by simp
    from less.IH [OF pv sh1 p1] obtain h' where
      r: "backpropagate ?h1 (Some p) w = Some h'" and len: "length h' = length ?h1"
      and f: "\<And>b. parent (h' ! b) = parent (?h1 ! b) \<and> children (h' ! b) = children (?h1 ! b) \<and>
                n_plays (h' ! b) = n_plays (?h1 ! b) + (if onPath ?h1 p b then 1 else 0) \<and>
                n_wins (?h1 ! b) \<le> n_wins (h' ! b) \<and>
                n_wins (h' ! b) \<le> n_wins (?h1 ! b) + (if onPath ?h1 p b then 1 else 0)"
      by blast
    have c: "onPath ?h1 p b \<longleftrightarrow> onPath h p b" for b
      by (rule onPath_cong) (rule par1)
    have nv: "\<not> onPath h p v"
      using onPath_le [OF less.prems(1), of p v] pv less.prems(2) by auto
    have u: "onPath h v b \<longleftrightarrow> b = v \<or> onPath h p b" for b
      using Some by (subst onPath_unfold) simp
    have "backpropagate h (Some v) w = Some h'"
      by (subst backpropagate_unfold) (simp only: Some r)
    moreover have "length h' = length h"
      using len by simp
    moreover have "parent (h' ! b) = parent (h ! b) \<and> children (h' ! b) = children (h ! b) \<and>
                n_plays (h' ! b) = n_plays (h ! b) + (if onPath h v b then 1 else 0) \<and>
                n_wins (h ! b) \<le> n_wins (h' ! b) \<and>
                n_wins (h' ! b) \<le> n_wins (h ! b) + (if onPath h v b then 1 else 0)" for b
    proof (cases "b = v")
      case True
      then show ?thesis
        using f [of b] nv bump_fields(4,5) [of "h ! v" w]
        by (simp add: c u h1 del: bump_fields(4,5))
    next
      case False
      then show ?thesis
        using f [of b] by (simp add: c u h1)
    qed
    ultimately show ?thesis
      by blast
  qed
qed


lemma childNode_entry:
  assumes "childNode node pl = Inr c"
  shows "\<exists>key pl'. (key, (pl', Some c)) \<in> set (children node)"
proof -
  from assms obtain child where m: "map_of (children node) (moveHash pl) = Some child"
    and c: "snd child = Some c"
    by (auto simp: childNode_def split: option.splits)
  from m have "(moveHash pl, child) \<in> set (children node)"
    by (rule map_of_SomeD)
  moreover have "child = (fst child, Some c)"
    using c by (cases child) simp
  ultimately show ?thesis by metis
qed

lemma selectLoop_valid:
  assumes "selectLoop U h a = Some r"
  shows "treeShape h \<longrightarrow> a < length h \<longrightarrow> (\<forall>b. r = Inr b \<longrightarrow> b < length h)"
proof (rule selectLoop.raw_induct
    [where P = "\<lambda>U h a r. treeShape h \<longrightarrow> a < length h \<longrightarrow> (\<forall>b. r = Inr b \<longrightarrow> b < length h)",
      OF _ assms])
  fix f :: "'a UCB1 \<Rightarrow> MonteCarloNode list \<Rightarrow> nat \<Rightarrow> (error + nat) option"
    and U h a r
  assume IH: "\<And>U h a r. f U h a = Some r \<Longrightarrow>
                treeShape h \<longrightarrow> a < length h \<longrightarrow> (\<forall>b. r = Inr b \<longrightarrow> b < length h)"
    and eq: "(if isFullyExpanded (h ! a) \<and> \<not> isLeaf (h ! a)
              then case selectBest U h (h ! a) (allPlays (h ! a)) (None, negInfinity U) of
                     Inl e \<Rightarrow> Some (Inl e)
                   | Inr (None, u) \<Rightarrow> Some (Inl NoBestPlay)
                   | Inr (Some bestPlay', u) \<Rightarrow>
                       (case childNode (h ! a) bestPlay' of
                          Inl e \<Rightarrow> Some (Inl e)
                        | Inr c \<Rightarrow> f U h c)
              else Some (Inr a)) = Some r"
  show "treeShape h \<longrightarrow> a < length h \<longrightarrow> (\<forall>b. r = Inr b \<longrightarrow> b < length h)"
  proof (intro impI allI)
    fix b
    assume sh: "treeShape h" and a: "a < length h" and r: "r = Inr b"
    show "b < length h"
    proof (cases "isFullyExpanded (h ! a) \<and> \<not> isLeaf (h ! a)")
      case False
      with eq r a show ?thesis by simp
    next
      case True
      with eq r obtain bp c where
        "childNode (h ! a) bp = Inr c" "f U h c = Some (Inr b)"
        by (auto split: sum.splits option.splits prod.splits)
      moreover from this(1) sh a have "c < length h"
        by (auto simp: treeShape_def dest!: childNode_entry)
      ultimately show ?thesis
        using IH sh by blast
    qed
  qed
qed

lemma select_valid:
  assumes "treeInvariant mc" "select U mc s = Some (Inr a)"
  shows "a < length (heap mc)"
proof -
  from assms(2) obtain a0 where m: "map_of (nodes mc) (hash s) = Some a0"
    and l: "selectLoop U (heap mc) a0 = Some (Inr a)"
    by (auto simp: select_def split: option.splits)
  from m have "(hash s, a0) \<in> set (nodes mc)"
    by (rule map_of_SomeD)
  with assms(1) have "a0 < length (heap mc)"
    by (auto simp: treeInvariant_def)
  with selectLoop_valid [OF l] assms(1) show ?thesis
    by (simp add: treeInvariant_def)
qed

lemma ownVisit_cong: "parent n = parent n' \<Longrightarrow> ownVisit n = ownVisit n'"
  by (simp add: ownVisit_def)

lemma backpropagate_invariant:
  assumes sh: "treeShape h" and tc: "treeCounters h F" and F: "F \<subseteq> {v}" and v: "v < length h"
    and b: "backpropagate h (Some v) w = Some h'"
  shows "length h' = length h \<and> treeShape h' \<and> treeCounters h' {}"
proof -
  have par: "\<forall>a<length h. \<forall>p. parent (h ! a) = Some p \<longrightarrow> p < a"
    using sh by (simp add: treeShape_def)
  from backpropagate_result [OF par v, of w] b have
    len: "length h' = length h"
    and f: "\<And>b. parent (h' ! b) = parent (h ! b) \<and> children (h' ! b) = children (h ! b) \<and>
                n_plays (h' ! b) = n_plays (h ! b) + (if onPath h v b then 1 else 0) \<and>
                n_wins (h ! b) \<le> n_wins (h' ! b) \<and>
                n_wins (h' ! b) \<le> n_wins (h ! b) + (if onPath h v b then 1 else 0)"
    by auto
  have ov: "ownVisit (h' ! b) = ownVisit (h ! b)" for b
    by (rule ownVisit_cong) (simp add: f)
  have shape: "treeShape h'"
    using sh unfolding treeShape_def len by (simp add: f)
  have 1: "n_wins (h' ! a) \<le> n_plays (h' ! a)" if "a < length h" for a
  proof -
    have "n_wins (h ! a) \<le> n_plays (h ! a)"
      using tc that by (simp add: treeCounters_def)
    with f [of a] show ?thesis by simp
  qed
  have 2: "n_plays (h' ! a) + ownVisit (h' ! p) \<le> n_plays (h' ! p)"
    if "a < length h" "parent (h' ! a) = Some p" for a p
  proof -
    have pa: "parent (h ! a) = Some p"
      using that(2) by (simp add: f)
    then have "n_plays (h ! a) + ownVisit (h ! p) \<le> n_plays (h ! p)"
      using tc that(1) by (simp add: treeCounters_def)
    moreover have "onPath h v p" if "onPath h v a"
      using that pa by (rule onPath_parent)
    ultimately show ?thesis
      using f [of a] f [of p] by (auto simp: ov)
  qed
  have 3: "ownVisit (h' ! a) \<le> n_plays (h' ! a)" if "a < length h" for a
  proof (cases "a = v")
    case True
    have "onPath h v v" by (rule onPath_self)
    with f [of v] have "1 \<le> n_plays (h' ! v)" by simp
    moreover have "ownVisit (h' ! v) \<le> 1" by (simp add: ownVisit_def)
    ultimately show ?thesis using True by simp
  next
    case False
    with F have "a \<notin> F" by auto
    with tc that have "ownVisit (h ! a) \<le> n_plays (h ! a)"
      by (simp add: treeCounters_def)
    with f [of a] show ?thesis by (simp add: ov)
  qed
  have "treeCounters h' {}"
    unfolding treeCounters_def len using 1 2 3 by simp
  with len shape show ?thesis by simp
qed


lemma expand_result:
  assumes inv: "treeInvariant mc" and a: "a < length (heap mc)"
    and e: "expand mc a rnd k = Inr (mc1, c)"
  shows "c = length (heap mc) \<and> length (heap mc1) = Suc (length (heap mc)) \<and>
         treeShape (heap mc1) \<and> treeCounters (heap mc1) {c} \<and>
         (\<forall>(key, b) \<in> set (nodes mc1). b < length (heap mc1))"
proof -
  let ?h = "heap mc"
  define node where "node = ?h ! a"
  define rm where "rm = unexpandedPlays node ! randomIndex rnd k (length (unexpandedPlays node))"
  define cs where "cs = after (doMove (state node) rm)"
  define child where "child = newMonteCarloNode (Some a) (Some rm) cs (legalMoves cs)"
  define node' where
    "node' = node\<lparr> children := AList.update (moveHash rm) (rm, Some (length ?h)) (children node) \<rparr>"
  have r: "mc1 = mc\<lparr> heap := ?h[a := node'] @ [child],
                      nodes := AList.update (hash cs) (length ?h) (nodes mc) \<rparr>"
    and c: "c = length ?h"
    using e unfolding expand_def node_def [symmetric] Let_def rm_def [symmetric]
      cs_def [symmetric] child_def [symmetric] node'_def [symmetric]
    by (auto split: if_splits option.splits)
  let ?h1 = "?h[a := node'] @ [child]"
  have h1: "heap mc1 = ?h1"
    by (simp add: r)
  have len: "length ?h1 = Suc (length ?h)"
    by simp
  have old: "?h1 ! b = (if b = a then node' else ?h ! b)" if "b < length ?h" for b
    using that by (simp add: nth_append nth_list_update)
  have new: "?h1 ! length ?h = child"
    by (simp add: nth_append)
  have child_f: "parent child = Some a" "n_plays child = 0" "n_wins child = 0"
    by (simp_all add: child_def)
  have sh: "treeShape ?h" and tc: "treeCounters ?h {}"
    and nd: "\<forall>(key, b) \<in> set (nodes mc). b < length ?h"
    using inv by (simp_all add: treeInvariant_def)
  have par': "parent node' = parent (?h ! a)"
    by (simp add: node'_def node_def)
  have pl': "n_plays node' = n_plays (?h ! a)" "n_wins node' = n_wins (?h ! a)"
    by (simp_all add: node'_def node_def)
  have par_old: "parent (?h1 ! b) = parent (?h ! b)" if "b < length ?h" for b
    using that by (simp add: old par')
  have pl_old: "n_plays (?h1 ! b) = n_plays (?h ! b)" "n_wins (?h1 ! b) = n_wins (?h ! b)"
    if "b < length ?h" for b
    using that by (simp_all add: old pl')
  have ov_old: "ownVisit (?h1 ! b) = ownVisit (?h ! b)" if "b < length ?h" for b
    by (rule ownVisit_cong) (rule par_old [OF that])
  have ch': "(key, (pl, Some d)) \<in> set (children node') \<Longrightarrow>
             d = length ?h \<or> (key, (pl, Some d)) \<in> set (children (?h ! a))" for key pl d
    using set_update_subset [of "moveHash rm" "(rm, Some (length ?h))" "children node"]
    by (auto simp: node'_def node_def)
  have shape: "treeShape ?h1"
    unfolding treeShape_def
  proof (intro conjI allI impI)
    fix b p
    assume b: "b < length ?h1" and p: "parent (?h1 ! b) = Some p"
    show "p < b"
    proof (cases "b < length ?h")
      case True
      with p sh show ?thesis by (simp add: par_old treeShape_def)
    next
      case False
      with b have "b = length ?h" by simp
      with p a show ?thesis by (simp add: new child_f)
    qed
  next
    fix b key pl d
    assume b: "b < length ?h1" and d: "(key, (pl, Some d)) \<in> set (children (?h1 ! b))"
    have "d < length ?h1 \<and> parent (?h1 ! d) = Some b"
    proof (cases "b < length ?h")
      case False
      with b have "b = length ?h" by simp
      with d have "(key, (pl, Some d)) \<in> set (children child)" by (simp add: new)
      then have "Some d = None"
        unfolding child_def by (rule newMonteCarloNode_children)
      then show ?thesis by simp
    next
      case True
      have k: "d < length ?h \<and> parent (?h ! d) = Some b"
        if "(key, (pl, Some d)) \<in> set (children (?h ! b))"
        using sh True that unfolding treeShape_def by blast
      show ?thesis
      proof (cases "b = a")
        case False
        with d True have "(key, (pl, Some d)) \<in> set (children (?h ! b))"
          by (simp add: old)
        from k [OF this] show ?thesis by (simp add: par_old)
      next
        case ba: True
        with d True have "(key, (pl, Some d)) \<in> set (children node')"
          by (simp add: old)
        from ch' [OF this] show ?thesis
        proof
          assume "d = length ?h"
          then show ?thesis using ba by (simp add: new child_f)
        next
          assume "(key, (pl, Some d)) \<in> set (children (?h ! a))"
          with k ba show ?thesis by (simp add: par_old)
        qed
      qed
    qed
    then show "d < length ?h1" and "parent (?h1 ! d) = Some b" by simp_all
  qed
  have counters: "treeCounters ?h1 {length ?h}"
    unfolding treeCounters_def
  proof (intro conjI allI impI)
    fix b assume b: "b < length ?h1"
    show "n_wins (?h1 ! b) \<le> n_plays (?h1 ! b)"
    proof (cases "b < length ?h")
      case True
      with tc show ?thesis by (simp add: pl_old treeCounters_def)
    next
      case False
      with b have "b = length ?h" by simp
      then show ?thesis by (simp add: new child_f)
    qed
  next
    fix b p assume b: "b < length ?h1" and p: "parent (?h1 ! b) = Some p"
    show "n_plays (?h1 ! b) + ownVisit (?h1 ! p) \<le> n_plays (?h1 ! p)"
    proof (cases "b < length ?h")
      case True
      with p have pp: "parent (?h ! b) = Some p" by (simp add: par_old)
      with sh True have "p < length ?h" unfolding treeShape_def by fastforce
      with tc True pp show ?thesis by (simp add: pl_old ov_old treeCounters_def)
    next
      case False
      with b have bl: "b = length ?h" by simp
      with p have "p = a" by (simp add: new child_f)
      moreover have "ownVisit (?h ! a) \<le> n_plays (?h ! a)"
        using tc a by (simp add: treeCounters_def)
      ultimately show ?thesis
        using bl a by (simp add: new child_f pl_old ov_old)
    qed
  next
    fix b assume b: "b < length ?h1" and nf: "b \<notin> {length ?h}"
    then have "b < length ?h" by simp
    with tc show "ownVisit (?h1 ! b) \<le> n_plays (?h1 ! b)"
      by (simp add: pl_old ov_old treeCounters_def)
  qed
  have "\<forall>(key, b) \<in> set (nodes mc1). b < length ?h1"
    using nd set_update_subset [of "hash cs" "length ?h" "nodes mc"]
    by (fastforce simp: r)
  with c h1 len shape counters show ?thesis by simp
qed


lemma treeInvariant_new: "treeInvariant newMonteCarlo"
  by (simp add: treeInvariant_def treeShape_def treeCounters_def newMonteCarlo_def)

lemma makeNode_invariant:
  assumes inv: "treeInvariant mc"
  shows "treeInvariant (makeNode mc s)"
proof (cases "map_of (nodes mc) (hash s) = None")
  case False
  with inv show ?thesis by (auto simp: makeNode_def)
next
  case True
  let ?h = "heap mc"
  define root where "root = newMonteCarloNode None None s (legalMoves s)"
  let ?h1 = "?h @ [root]"
  have r: "makeNode mc s = mc\<lparr> heap := ?h1, nodes := AList.update (hash s) (length ?h) (nodes mc) \<rparr>"
    using True by (simp add: makeNode_def root_def)
  have root_f: "parent root = None" "n_plays root = 0" "n_wins root = 0"
    by (simp_all add: root_def)
  have root_c: "(key, (pl, Some d)) \<in> set (children root) \<Longrightarrow> False" for key pl d
    using newMonteCarloNode_children [of key pl "Some d" None None s "legalMoves s"]
    by (simp add: root_def)
  have old: "?h1 ! b = ?h ! b" if "b < length ?h" for b
    using that by (simp add: nth_append)
  have new: "?h1 ! length ?h = root"
    by simp
  have sh: "treeShape ?h" and tc: "treeCounters ?h {}"
    and nd: "\<forall>(key, b) \<in> set (nodes mc). b < length ?h"
    using inv by (simp_all add: treeInvariant_def)
  have cases_b: "b < length ?h \<or> b = length ?h" if "b < length ?h1" for b
    using that by auto
  have shape: "treeShape ?h1"
    unfolding treeShape_def
  proof (intro conjI allI impI)
    fix b p
    assume "b < length ?h1" and p: "parent (?h1 ! b) = Some p"
    from cases_b [OF this(1)] show "p < b"
    proof
      assume "b < length ?h"
      with p sh show ?thesis by (simp add: old treeShape_def)
    next
      assume "b = length ?h"
      with p show ?thesis by (simp add: root_f)
    qed
  next
    fix b key pl d
    assume "b < length ?h1" and d: "(key, (pl, Some d)) \<in> set (children (?h1 ! b))"
    from cases_b [OF this(1)] have "d < length ?h1 \<and> parent (?h1 ! d) = Some b"
    proof
      assume b: "b < length ?h"
      with d have "(key, (pl, Some d)) \<in> set (children (?h ! b))"
        by (simp add: old)
      with sh b have "d < length ?h \<and> parent (?h ! d) = Some b"
        unfolding treeShape_def by blast
      then show ?thesis by (simp add: old)
    next
      assume "b = length ?h"
      with d root_c show ?thesis by auto
    qed
    then show "d < length ?h1" and "parent (?h1 ! d) = Some b" by simp_all
  qed
  have counters: "treeCounters ?h1 {}"
    unfolding treeCounters_def
  proof (intro conjI allI impI)
    fix b assume "b < length ?h1"
    from cases_b [OF this] show "n_wins (?h1 ! b) \<le> n_plays (?h1 ! b)"
      using tc by (auto simp: old root_f treeCounters_def)
  next
    fix b p assume "b < length ?h1" and p: "parent (?h1 ! b) = Some p"
    from cases_b [OF this(1)] show "n_plays (?h1 ! b) + ownVisit (?h1 ! p) \<le> n_plays (?h1 ! p)"
    proof
      assume b: "b < length ?h"
      with p have pp: "parent (?h ! b) = Some p" by (simp add: old)
      with sh b have "p < length ?h" unfolding treeShape_def by fastforce
      with tc b pp show ?thesis by (simp add: old treeCounters_def)
    next
      assume "b = length ?h"
      with p show ?thesis by (simp add: root_f)
    qed
  next
    fix b assume "b < length ?h1"
    from cases_b [OF this] show "ownVisit (?h1 ! b) \<le> n_plays (?h1 ! b)"
      using tc by (auto simp: old root_f treeCounters_def ownVisit_def)
  qed
  have "\<forall>(key, b) \<in> set (nodes (makeNode mc s)). b < length ?h1"
    using nd set_update_subset [of "hash s" "length ?h" "nodes mc"]
    by (fastforce simp: r)
  with shape counters show ?thesis
    by (simp add: treeInvariant_def r)
qed

lemma searchIteration_invariant:
  assumes inv: "treeInvariant mc"
    and it: "searchIteration U rnd s (mc, k) = Some (Inr (mc', k'))"
  shows "treeInvariant mc'"
proof -
  from it obtain a where sel: "select U mc s = Some (Inr a)"
    by (auto simp: searchIteration_def split: option.splits sum.splits)
  have a: "a < length (heap mc)"
    using inv sel by (rule select_valid)
  have sh: "treeShape (heap mc)" and tc: "treeCounters (heap mc) {}"
    and nd: "\<forall>(key, b) \<in> set (nodes mc). b < length (heap mc)"
    using inv by (simp_all add: treeInvariant_def)
  show ?thesis
  proof (cases "isLeaf (heap mc ! a) = False \<and> checkWinWholeBoard (state (heap mc ! a)) = OutcomeNone")
    case True
    with it sel obtain mc1 c w1 h where
      e: "expand mc a rnd k = Inr (mc1, c)"
      and b: "backpropagate (heap mc1) (Some c) w1 = Some h"
      and r: "mc' = mc1\<lparr> heap := h \<rparr>"
      by (auto simp: searchIteration_def Let_def split: option.splits sum.splits prod.splits)
    from expand_result [OF inv a e] have
      ce: "c = length (heap mc)" and l1: "length (heap mc1) = Suc (length (heap mc))"
      and sh1: "treeShape (heap mc1)"
      and tc1: "treeCounters (heap mc1) {c}"
      and nd1: "\<forall>(key, b) \<in> set (nodes mc1). b < length (heap mc1)"
      by blast+
    have c: "c < length (heap mc1)"
      using ce l1 by simp
    from backpropagate_invariant [OF sh1 tc1 _ c b]
    have "length h = length (heap mc1) \<and> treeShape h \<and> treeCounters h {}"
      by simp
    with nd1 show ?thesis
      by (simp add: treeInvariant_def r)
  next
    case False
    with it sel obtain w h where
      b: "backpropagate (heap mc) (Some a) w = Some h"
      and r: "mc' = mc\<lparr> heap := h \<rparr>"
      by (auto simp: searchIteration_def Let_def split: option.splits sum.splits prod.splits if_splits)
    from backpropagate_invariant [OF sh tc _ a b]
    have "length h = length (heap mc) \<and> treeShape h \<and> treeCounters h {}"
      by simp
    with nd show ?thesis
      by (simp add: treeInvariant_def r)
  qed
qed

lemma searchLoop_invariant:
  "treeInvariant (fst mck) \<Longrightarrow> searchLoop U rnd s rounds mck = Some (Inr mck') \<Longrightarrow>
   treeInvariant (fst mck')"
proof (induction rounds arbitrary: mck)
  case 0
  then show ?case by simp
next
  case (Suc rounds)
  from Suc.prems(2) obtain mck1 where
    1: "searchIteration U rnd s mck = Some (Inr mck1)"
    and 2: "searchLoop U rnd s rounds mck1 = Some (Inr mck')"
    by (auto split: option.splits sum.splits)
  have "treeInvariant (fst mck1)"
    using Suc.prems(1) 1 searchIteration_invariant [of "fst mck" U rnd s "snd mck" "fst mck1" "snd mck1"]
    by simp
  from Suc.IH [OF this 2] show ?case .
qed

lemma treeInvariant_countersHold:
  assumes "treeInvariant mc"
  shows "countersHold (heap mc)"
  unfolding countersHold_def
proof (intro ballI conjI)
  let ?h = "heap mc"
  have sh: "treeShape ?h" and tc: "treeCounters ?h {}"
    using assms by (simp_all add: treeInvariant_def)
  fix node assume "node \<in> set ?h"
  then obtain a where a: "a < length ?h" "node = ?h ! a"
    by (auto simp: in_set_conv_nth)
  show "n_wins node \<le> n_plays node"
    using tc a by (simp add: treeCounters_def)
  fix entry assume e: "entry \<in> set (children node)"
  show "case snd (snd entry) of None \<Rightarrow> True
        | Some c \<Rightarrow> n_plays (?h ! c) + ownVisit node \<le> n_plays node"
  proof (cases "snd (snd entry)")
    case None
    then show ?thesis by simp
  next
    case (Some c)
    then have "entry = (fst entry, (fst (snd entry), Some c))"
      by (metis prod.collapse)
    with e a have "(fst entry, (fst (snd entry), Some c)) \<in> set (children (?h ! a))"
      by simp
    with sh a have "c < length ?h" "parent (?h ! c) = Some a"
      unfolding treeShape_def by blast+
    with tc have "n_plays (?h ! c) + ownVisit (?h ! a) \<le> n_plays (?h ! a)"
      by (simp add: treeCounters_def)
    with Some a show ?thesis by simp
  qed
qed

text \<open>
  Claim C4, amended: after any completed \<^verbatim>\<open>runSearch\<close> call on a new engine, whatever
  the number of rounds, the draws and the UCB1 arithmetic, every node of the tree has at
  most as many wins as visits, and at least as many visits as each of its expanded
  children, plus one at every node other than the root.
\<close>

theorem runSearch_counters:
  assumes "runSearch U rnd k newMonteCarlo s rounds = Some (Inr (mc, k'))"
  shows "countersHold (heap mc)"
proof -
  have "treeInvariant (makeNode newMonteCarlo s)"
    using treeInvariant_new by (rule makeNode_invariant)
  with assms have "treeInvariant mc"
    using searchLoop_invariant [of "(makeNode newMonteCarlo s, k)" U rnd s rounds "(mc, k')"]
    by (simp add: runSearch_def)
  then show ?thesis
    by (rule treeInvariant_countersHold)
qed

theorem runSearch_counters_witness:
  "runSearch testUCB1 (\<lambda>k. 18) 0 newMonteCarlo afterSixteen 1 = Some (Inr (oneRoundTree, 1)) \<and>
   countersHold (heap oneRoundTree) \<and>
   n_plays (heap oneRoundTree ! 0) = 1 \<and> n_plays (heap oneRoundTree ! 1) = 1"
proof -
  have r: "runSearch testUCB1 (\<lambda>k. 18) 0 newMonteCarlo afterSixteen 1 = Some (Inr (oneRoundTree, 1))"
    using oneRoundTree_facts(1) by (simp add: oneRound_def)
  from runSearch_counters [OF r] r oneRoundTree_facts show ?thesis
    by simp
qed

end
